theory Spec2Isabelle
  imports Main "HOL-Library.Multiset"
begin

section \<open>The default bundler: data model\<close>

text \<open>
  The development follows \<^verbatim>\<open>packages/bundlers/default/src/DefaultBundler.js\<close>: the
  visitor of \<^verbatim>\<open>bundle\<close> (pass 1), the four steps of \<^verbatim>\<open>optimize\<close> (passes 2 to 5) and
  \<^verbatim>\<open>deduplicateBundle\<close>. The JavaScript object \<^verbatim>\<open>bundleGraph\<close> is split in two: the asset
  graph, which the bundler only reads, and the overlay of bundles and bundle groups, which it
  mutates and which every function below takes and returns.
\<close>

text \<open>The tunables, \<^verbatim>\<open>OPTIONS\<close> in the source.\<close>

definition minBundles :: nat where
  "minBundles = 1"

definition minBundleSize :: int where
  "minBundleSize = 30000"

definition maxParallelRequests :: nat where
  "maxParallelRequests = 5"

record Environment =
  env_context :: string
  env_outputFormat :: string
  env_isLibrary :: bool
  env_isolated :: bool

text \<open>\<^verbatim>\<open>env.isIsolated()\<close>.\<close>

definition isIsolated :: "Environment \<Rightarrow> bool" where
  "isIsolated e = env_isolated e"

record Asset =
  a_id :: string
  a_type :: string
  a_size :: int
  a_isInline :: bool
  a_isIsolated :: bool
  a_env :: Environment

record Dependency =
  d_id :: string
  d_isEntry :: bool
  d_isAsync :: bool
  d_target :: "string option"

text \<open>A node of the asset graph: \<^verbatim>\<open>node.type\<close> is the constructor, \<^verbatim>\<open>node.value\<close> its argument.\<close>

datatype Node = AssetNode Asset | DependencyNode Dependency

text \<open>
  The asset graph: the dependencies of the root, the dependencies of every asset (by asset id)
  and the assets every dependency resolves to (by dependency id), each in the graph's order.
\<close>

record AssetGraph =
  ag_entries :: "Dependency list"
  ag_dependencies :: "(string \<times> Dependency list) list"
  ag_resolved :: "(string \<times> Asset list) list"

record Bundle =
  b_id :: string
  b_type :: string
  b_env :: Environment
  b_target :: string
  b_isEntry :: bool
  b_isInline :: bool
  b_isSplittable :: bool
  b_mainEntry :: "Asset option"

record BundleGroup =
  g_dependency :: Dependency
  g_target :: string

text \<open>
  The mutable overlay. \<open>bg_bundles\<close> are the bundle nodes in creation order, \<open>bg_groups\<close> the
  bundle groups with their ordered bundles, \<open>bg_roots\<close> and \<open>bg_contains\<close> the edges from a bundle
  id to the id of a root asset and of a contained asset, \<open>bg_bundleReferences\<close> the edges between
  bundle ids, \<open>bg_assetReferences\<close> the edges from a dependency id to an asset id, and
  \<open>bg_internalized\<close> the pairs of a bundle id and the id of an async dependency internalized in it.
\<close>

record BundleGraph =
  bg_bundles :: "Bundle list"
  bg_groups :: "(BundleGroup \<times> Bundle list) list"
  bg_roots :: "(string \<times> string) list"
  bg_contains :: "(string \<times> string) list"
  bg_bundleReferences :: "(string \<times> string) list"
  bg_assetReferences :: "(string \<times> string) list"
  bg_internalized :: "(string \<times> string) list"

datatype error = NullThrows | InvariantViolation | TypeError

section \<open>JavaScript containers\<close>

text \<open>\<^verbatim>\<open>Set.prototype.add\<close>: insertion order is kept, an element already present is not added.\<close>

definition setAdd :: "'a \<Rightarrow> 'a list \<Rightarrow> 'a list" where
  "setAdd x xs = (if x \<in> set xs then xs else xs @ [x])"

text \<open>\<^verbatim>\<open>new Set(xs)\<close>.\<close>

definition newSet :: "'a list \<Rightarrow> 'a list" where
  "newSet xs = fold setAdd xs []"

text \<open>\<^verbatim>\<open>Map.prototype.set\<close>: a present key keeps its position, a new key goes last.\<close>

fun mapSet :: "'k \<Rightarrow> 'v \<Rightarrow> ('k \<times> 'v) list \<Rightarrow> ('k \<times> 'v) list" where
  "mapSet k v [] = [(k, v)]"
| "mapSet k v ((k', v') # m) = (if k = k' then (k, v) # m else (k', v') # mapSet k v m)"

text \<open>\<^verbatim>\<open>Array.prototype.join\<close>.\<close>

fun join :: "string \<Rightarrow> string list \<Rightarrow> string" where
  "join sep [] = []"
| "join sep [x] = x"
| "join sep (x # y # ys) = x @ sep @ join sep (y # ys)"

text \<open>The \<^verbatim>\<open><\<close> of JavaScript on strings, by code unit.\<close>

fun stringLess :: "string \<Rightarrow> string \<Rightarrow> bool" where
  "stringLess [] [] = False"
| "stringLess [] (y # ys) = True"
| "stringLess (x # xs) [] = False"
| "stringLess (x # xs) (y # ys) =
     (if x = y then stringLess xs ys else (of_char x :: nat) < of_char y)"

text \<open>
  \<^verbatim>\<open>Array.prototype.sort\<close>, taken to be stable, as ECMAScript 2019 requires of it:
  \<open>precedes a b\<close> says that the comparator puts \<open>a\<close> strictly before \<open>b\<close>; elements the
  comparator does not separate keep their order. An engine older than that may order such
  elements otherwise.
\<close>

fun sortInsert :: "('a \<Rightarrow> 'a \<Rightarrow> bool) \<Rightarrow> 'a \<Rightarrow> 'a list \<Rightarrow> 'a list" where
  "sortInsert precedes x [] = [x]"
| "sortInsert precedes x (y # ys) =
     (if precedes y x then y # sortInsert precedes x ys else x # y # ys)"

definition jsSort :: "('a \<Rightarrow> 'a \<Rightarrow> bool) \<Rightarrow> 'a list \<Rightarrow> 'a list" where
  "jsSort precedes xs = foldr (sortInsert precedes) xs []"

section \<open>Traversal\<close>

text \<open>
  Depth-first traversal with a set of visited nodes, as a stack machine: the node on top of the
  stack is skipped when it was visited, else the visitor runs on it, returns the new state and
  whether it called \<^verbatim>\<open>actions.skipChildren()\<close>, and the children (read in the new state) are
  pushed. \<open>universe\<close> lists the nodes of the graph. The result is the final state and the visited
  nodes, last visited first.
\<close>

function dfs ::
  "('s \<Rightarrow> 'n \<Rightarrow> 'n list) \<Rightarrow> 'n list \<Rightarrow> ('n \<Rightarrow> 's \<Rightarrow> 's \<times> bool) \<Rightarrow> 'n list \<Rightarrow> 'n list \<Rightarrow> 's
    \<Rightarrow> 's \<times> 'n list" where
  "dfs children universe visit [] visited s = (s, visited)"
| "dfs children universe visit (n # stack) visited s =
     (if n \<in> set visited \<or> n \<notin> set universe
      then dfs children universe visit stack visited s
      else dfs children universe visit
             ((if snd (visit n s) then [] else children (fst (visit n s)) n) @ stack)
             (n # visited) (fst (visit n s)))"
  by pat_completeness auto
termination
proof (relation "measures
    [\<lambda>(children, universe, visit, stack, visited, s). card (set universe - set visited),
     \<lambda>(children, universe, visit, stack, visited, s). length stack]", goal_cases)
  case 1
  show ?case by simp
next
  case (2 children universe visit n stack visited s)
  show ?case by simp
next
  case (3 children universe visit n stack visited s)
  then have mem: "n \<in> set universe - set visited" by simp
  have fin: "finite (set universe - set visited)" by simp
  have "card ((set universe - set visited) - {n}) < card (set universe - set visited)"
    using fin mem by (rule card_Diff1_less)
  moreover have "set universe - set (n # visited) = (set universe - set visited) - {n}"
    by auto
  ultimately have "card (set universe - set (n # visited)) < card (set universe - set visited)"
    by simp
  then show ?case by simp
qed

section \<open>The asset graph's queries\<close>

text \<open>
  Modelled from the spec: \<^verbatim>\<open>getDependencies\<close>, \<^verbatim>\<open>getDependencyAssets\<close> and
  \<^verbatim>\<open>getDependencyResolution\<close> are methods of the bundle graph, whose code is not among the
  sources. A dependency resolves to zero or more assets; its resolution is the resolved asset
  it stands for, the first one.
\<close>

definition getDependencies :: "AssetGraph \<Rightarrow> Asset \<Rightarrow> Dependency list" where
  "getDependencies ag a =
     (case map_of (ag_dependencies ag) (a_id a) of None \<Rightarrow> [] | Some ds \<Rightarrow> ds)"

definition getDependencyAssets :: "AssetGraph \<Rightarrow> Dependency \<Rightarrow> Asset list" where
  "getDependencyAssets ag d =
     (case map_of (ag_resolved ag) (d_id d) of None \<Rightarrow> [] | Some as \<Rightarrow> as)"

definition getDependencyResolution :: "AssetGraph \<Rightarrow> Dependency \<Rightarrow> Asset option" where
  "getDependencyResolution ag d =
     (case getDependencyAssets ag d of [] \<Rightarrow> None | a # _ \<Rightarrow> Some a)"

definition allNodes :: "AssetGraph \<Rightarrow> Node list" where
  "allNodes ag =
     map DependencyNode (ag_entries ag @ concat (map snd (ag_dependencies ag)))
     @ map AssetNode (concat (map snd (ag_resolved ag)))"

definition nodeChildren :: "AssetGraph \<Rightarrow> Node \<Rightarrow> Node list" where
  "nodeChildren ag n =
     (case n of
        AssetNode a \<Rightarrow> map DependencyNode (getDependencies ag a)
      | DependencyNode d \<Rightarrow> map AssetNode (getDependencyAssets ag d))"

fun nodeAssets :: "Node list \<Rightarrow> Asset list" where
  "nodeAssets [] = []"
| "nodeAssets (AssetNode a # ns) = a # nodeAssets ns"
| "nodeAssets (DependencyNode d # ns) = nodeAssets ns"

text \<open>
  Modelled from the spec: \<^verbatim>\<open>bundleGraph.traverse\<close> and \<^verbatim>\<open>bundleGraph.traverseContents\<close> visit
  the assets and dependencies depth-first from the root's dependencies, each node once, in the
  graph's order.
\<close>

definition traverse :: "AssetGraph \<Rightarrow> (Node \<Rightarrow> 's \<Rightarrow> 's \<times> bool) \<Rightarrow> 's \<Rightarrow> 's" where
  "traverse ag visit s =
     fst (dfs (\<lambda>_. nodeChildren ag) (allNodes ag) visit
            (map DependencyNode (ag_entries ag)) [] s)"

definition traverseContents :: "AssetGraph \<Rightarrow> (Node \<Rightarrow> 's \<Rightarrow> 's \<times> bool) \<Rightarrow> 's \<Rightarrow> 's" where
  "traverseContents ag visit s =
     fst (dfs (\<lambda>_. nodeChildren ag) (allNodes ag) visit
            (map DependencyNode (ag_entries ag)) [] s)"

text \<open>
  Modelled from the spec: the subgraph of an asset is the asset and every asset reachable from
  it through dependencies that do not cross a split point: the dependency is not async and the
  asset it leads to is neither isolated nor inline.
\<close>

definition subgraphChildren :: "AssetGraph \<Rightarrow> Node \<Rightarrow> Node list" where
  "subgraphChildren ag n =
     (case n of
        AssetNode a \<Rightarrow> map DependencyNode (filter (\<lambda>d. \<not> d_isAsync d) (getDependencies ag a))
      | DependencyNode d \<Rightarrow>
          map AssetNode
            (filter (\<lambda>a. \<not> a_isIsolated a \<and> \<not> a_isInline a) (getDependencyAssets ag d)))"

text \<open>A visitor that does nothing.\<close>

definition noVisit :: "'n \<Rightarrow> unit \<Rightarrow> unit \<times> bool" where
  "noVisit n s = (s, False)"

definition assetSubgraph :: "AssetGraph \<Rightarrow> Asset \<Rightarrow> Asset list" where
  "assetSubgraph ag a =
     nodeAssets (rev (snd (dfs (\<lambda>_. subgraphChildren ag) (AssetNode a # allNodes ag) noVisit
                             [AssetNode a] [] ())))"

text \<open>Modelled from the spec: \<^verbatim>\<open>getTotalSize\<close> is the size of the subgraph rooted at the asset.\<close>

definition getTotalSize :: "AssetGraph \<Rightarrow> Asset \<Rightarrow> int" where
  "getTotalSize ag a = sum_list (map a_size (assetSubgraph ag a))"

section \<open>The bundle graph's queries and mutations\<close>

text \<open>
  Modelled from the spec: the methods of \<^verbatim>\<open>MutableBundleGraph\<close> and \<^verbatim>\<open>Bundle\<close>, whose code is
  not among the sources, after section 4.2 of the specification.
\<close>

definition hasAsset :: "BundleGraph \<Rightarrow> Bundle \<Rightarrow> Asset \<Rightarrow> bool" where
  "hasAsset bg b a = ((b_id b, a_id a) \<in> set (bg_contains bg))"

text \<open>
  \<^verbatim>\<open>getMainEntry\<close>: the entry asset the bundle was created with, absent for a bundle created
  from a unique key.
\<close>

definition getMainEntry :: "Bundle \<Rightarrow> Asset option" where
  "getMainEntry b = b_mainEntry b"

definition findBundlesWithAsset :: "BundleGraph \<Rightarrow> Asset \<Rightarrow> Bundle list" where
  "findBundlesWithAsset bg a = filter (\<lambda>b. hasAsset bg b a) (bg_bundles bg)"

text \<open>A bundle contains a dependency when it contains an asset that has it.\<close>

definition hasDependency :: "AssetGraph \<Rightarrow> BundleGraph \<Rightarrow> Dependency \<Rightarrow> Bundle \<Rightarrow> bool" where
  "hasDependency ag bg d b =
     list_ex (\<lambda>(aid, ds). (b_id b, aid) \<in> set (bg_contains bg) \<and> d \<in> set ds)
       (ag_dependencies ag)"

definition findBundlesWithDependency :: "AssetGraph \<Rightarrow> BundleGraph \<Rightarrow> Dependency \<Rightarrow> Bundle list" where
  "findBundlesWithDependency ag bg d = filter (hasDependency ag bg d) (bg_bundles bg)"

definition getBundleGroupsContainingBundle :: "BundleGraph \<Rightarrow> Bundle \<Rightarrow> BundleGroup list" where
  "getBundleGroupsContainingBundle bg b =
     map fst (filter (\<lambda>(g, members). b \<in> set members) (bg_groups bg))"

definition getBundlesInBundleGroup :: "BundleGraph \<Rightarrow> BundleGroup \<Rightarrow> Bundle list" where
  "getBundlesInBundleGroup bg g =
     (case map_of (bg_groups bg) g of None \<Rightarrow> [] | Some members \<Rightarrow> members)"

definition getReferencedBundles :: "BundleGraph \<Rightarrow> Bundle \<Rightarrow> Bundle list" where
  "getReferencedBundles bg b =
     filter (\<lambda>x. (b_id b, b_id x) \<in> set (bg_bundleReferences bg)) (bg_bundles bg)"

text \<open>
  The parent bundles of a bundle group: the bundles that contain the group's dependency and
  have not internalized it. An entry group has none.
\<close>

definition isInternalized :: "BundleGraph \<Rightarrow> Dependency \<Rightarrow> Bundle \<Rightarrow> bool" where
  "isInternalized bg d b = ((b_id b, d_id d) \<in> set (bg_internalized bg))"

definition isParentOf :: "AssetGraph \<Rightarrow> BundleGraph \<Rightarrow> BundleGroup \<Rightarrow> Bundle \<Rightarrow> bool" where
  "isParentOf ag bg g b =
     (hasDependency ag bg (g_dependency g) b \<and> \<not> isInternalized bg (g_dependency g) b)"

definition getParentBundlesOfBundleGroup ::
  "AssetGraph \<Rightarrow> BundleGraph \<Rightarrow> BundleGroup \<Rightarrow> Bundle list" where
  "getParentBundlesOfBundleGroup ag bg g = filter (isParentOf ag bg g) (bg_bundles bg)"

datatype ExternalResolution = ExtBundleGroup BundleGroup | ExtAsset string

text \<open>
  \<^verbatim>\<open>resolveExternalDependency\<close>: the bundle group the dependency opened, else the asset it
  references in another bundle, else nothing.
\<close>

definition resolveExternalDependency :: "BundleGraph \<Rightarrow> Dependency \<Rightarrow> ExternalResolution option" where
  "resolveExternalDependency bg d =
     (case find (\<lambda>g. g_dependency g = d) (map fst (bg_groups bg)) of
        Some g \<Rightarrow> Some (ExtBundleGroup g)
      | None \<Rightarrow>
          (case find (\<lambda>(did, aid). did = d_id d) (bg_assetReferences bg) of
             Some (did, aid) \<Rightarrow> Some (ExtAsset aid)
           | None \<Rightarrow> None))"

text \<open>
  \<^verbatim>\<open>isAssetInAncestorBundles\<close>: in every bundle group that contains the bundle, some other
  bundle that comes earlier in the group, or that references the bundle through a chain of
  bundle references, contains the asset.
\<close>

definition referrers :: "BundleGraph \<Rightarrow> string \<Rightarrow> string list" where
  "referrers bg bid = map fst (filter (\<lambda>(f, t). t = bid) (bg_bundleReferences bg))"

definition bundleAncestors :: "BundleGraph \<Rightarrow> Bundle \<Rightarrow> string list" where
  "bundleAncestors bg b =
     rev (snd (dfs (\<lambda>_. referrers bg)
                 (map fst (bg_bundleReferences bg) @ map snd (bg_bundleReferences bg))
                 noVisit (referrers bg (b_id b)) [] ()))"

definition earlierInGroup :: "Bundle \<Rightarrow> Bundle list \<Rightarrow> Bundle list" where
  "earlierInGroup b members = takeWhile (\<lambda>x. x \<noteq> b) members"

definition ancestorHasAsset :: "BundleGraph \<Rightarrow> Bundle \<Rightarrow> Asset \<Rightarrow> string \<Rightarrow> bool" where
  "ancestorHasAsset bg b a x = (x \<noteq> b_id b \<and> (x, a_id a) \<in> set (bg_contains bg))"

definition inAncestorsVia ::
  "BundleGraph \<Rightarrow> Bundle \<Rightarrow> Asset \<Rightarrow> string list \<Rightarrow> BundleGroup \<times> Bundle list \<Rightarrow> bool" where
  "inAncestorsVia bg b a referencing gm =
     (b \<notin> set (snd gm) \<or>
      list_ex (ancestorHasAsset bg b a) (map b_id (earlierInGroup b (snd gm)) @ referencing))"

definition isAssetInAncestorBundles :: "BundleGraph \<Rightarrow> Bundle \<Rightarrow> Asset \<Rightarrow> bool" where
  "isAssetInAncestorBundles bg b a =
     list_all (inAncestorsVia bg b a (bundleAncestors bg b)) (bg_groups bg)"

text \<open>\<^verbatim>\<open>createBundleGroup\<close>: a new group for the dependency and the target, with no bundle.\<close>

definition createBundleGroup ::
  "Dependency \<Rightarrow> string \<Rightarrow> BundleGraph \<Rightarrow> BundleGroup \<times> BundleGraph" where
  "createBundleGroup dep target bg =
     (let g = \<lparr>g_dependency = dep, g_target = target\<rparr>
      in (g, if g \<in> set (map fst (bg_groups bg)) then bg
             else bg\<lparr>bg_groups := bg_groups bg @ [(g, [])]\<rparr>))"

text \<open>\<^verbatim>\<open>addBundleToBundleGroup\<close>, idempotent: the bundle goes last unless it is a member.\<close>

definition addMember :: "Bundle \<Rightarrow> BundleGroup \<Rightarrow> BundleGroup \<times> Bundle list \<Rightarrow> BundleGroup \<times> Bundle list" where
  "addMember b g gm = (if fst gm = g then (fst gm, setAdd b (snd gm)) else gm)"

definition addBundleToBundleGroup :: "Bundle \<Rightarrow> BundleGroup \<Rightarrow> BundleGraph \<Rightarrow> BundleGraph" where
  "addBundleToBundleGroup b g bg = bg\<lparr>bg_groups := map (addMember b g) (bg_groups bg)\<rparr>"

text \<open>
  The options of \<^verbatim>\<open>createBundle\<close>; a field the caller leaves out is \<open>None\<close>. The target is
  given by every caller.
\<close>

record BundleOpts =
  o_entryAsset :: "Asset option"
  o_uniqueKey :: "string option"
  o_type :: "string option"
  o_env :: "Environment option"
  o_target :: string
  o_isEntry :: "bool option"
  o_isInline :: "bool option"
  o_isSplittable :: "bool option"

definition replaceBundle :: "Bundle \<Rightarrow> Bundle \<Rightarrow> Bundle" where
  "replaceBundle b x = (if b_id x = b_id b then b else x)"

definition replaceMember :: "Bundle \<Rightarrow> BundleGroup \<times> Bundle list \<Rightarrow> BundleGroup \<times> Bundle list" where
  "replaceMember b gm = (fst gm, map (replaceBundle b) (snd gm))"

definition registerBundle :: "Bundle \<Rightarrow> BundleGraph \<Rightarrow> BundleGraph" where
  "registerBundle b bg =
     (if b_id b \<in> set (map b_id (bg_bundles bg))
      then bg\<lparr>bg_bundles := map (replaceBundle b) (bg_bundles bg),
              bg_groups := map (replaceMember b) (bg_groups bg)\<rparr>
      else bg\<lparr>bg_bundles := bg_bundles bg @ [b]\<rparr>)"

text \<open>
  \<^verbatim>\<open>createBundle\<close>: either an entry asset or a unique key must be given. The bundle's id is its
  unique key, else the id of its entry asset; its type and environment are the given ones, else
  the entry asset's; a flag left out is false. The specification does not say whether a bundle
  created from an entry asset without the flag is splittable: \<open>splittable\<close> decides it. Creating
  a bundle whose id is taken replaces the node of that id.
\<close>

definition createBundle ::
  "(Asset \<Rightarrow> bool) \<Rightarrow> BundleOpts \<Rightarrow> BundleGraph \<Rightarrow> error + (Bundle \<times> BundleGraph)" where
  "createBundle splittable opts bg =
     (case o_entryAsset opts of
        Some a \<Rightarrow>
          (let b = \<lparr>b_id = (case o_uniqueKey opts of Some k \<Rightarrow> k | None \<Rightarrow> a_id a),
                    b_type = (case o_type opts of Some t \<Rightarrow> t | None \<Rightarrow> a_type a),
                    b_env = (case o_env opts of Some e \<Rightarrow> e | None \<Rightarrow> a_env a),
                    b_target = o_target opts,
                    b_isEntry = (o_isEntry opts = Some True),
                    b_isInline = (o_isInline opts = Some True),
                    b_isSplittable =
                      (case o_isSplittable opts of Some v \<Rightarrow> v | None \<Rightarrow> splittable a),
                    b_mainEntry = Some a\<rparr>
           in Inr (b, registerBundle b bg))
      | None \<Rightarrow>
          (case (o_uniqueKey opts, o_type opts, o_env opts) of
             (Some k, Some t, Some e) \<Rightarrow>
               (let b = \<lparr>b_id = k, b_type = t, b_env = e, b_target = o_target opts,
                         b_isEntry = (o_isEntry opts = Some True),
                         b_isInline = (o_isInline opts = Some True),
                         b_isSplittable = (o_isSplittable opts = Some True),
                         b_mainEntry = None\<rparr>
                in Inr (b, registerBundle b bg))
           | _ \<Rightarrow> Inl InvariantViolation))"

text \<open>
  \<^verbatim>\<open>addAssetGraphToBundle\<close>: the asset becomes a root of the bundle, and the assets of its
  subgraph are attached; idempotent per asset and bundle.
\<close>

definition addAssetGraphToBundle :: "AssetGraph \<Rightarrow> Asset \<Rightarrow> Bundle \<Rightarrow> BundleGraph \<Rightarrow> BundleGraph" where
  "addAssetGraphToBundle ag a b bg =
     bg\<lparr>bg_roots := setAdd (b_id b, a_id a) (bg_roots bg),
        bg_contains :=
          fold setAdd (map (Pair (b_id b)) (map a_id (assetSubgraph ag a))) (bg_contains bg)\<rparr>"

text \<open>The split-free children of a node that the bundle contains, read in the current graph.\<close>

definition bundleChildren :: "AssetGraph \<Rightarrow> Bundle \<Rightarrow> BundleGraph \<Rightarrow> Node \<Rightarrow> Node list" where
  "bundleChildren ag b bg n =
     (case n of
        AssetNode a \<Rightarrow> map DependencyNode (filter (\<lambda>d. \<not> d_isAsync d) (getDependencies ag a))
      | DependencyNode d \<Rightarrow>
          map AssetNode
            (filter (\<lambda>a. \<not> a_isIsolated a \<and> \<not> a_isInline a \<and> hasAsset bg b a)
               (getDependencyAssets ag d)))"

text \<open>The assets of the graph whose ids are roots of the bundle, in the order of the root edges.\<close>

definition rootAsset :: "AssetGraph \<Rightarrow> Bundle \<Rightarrow> string \<times> string \<Rightarrow> Asset list" where
  "rootAsset ag b e =
     (if fst e = b_id b
      then (case find (\<lambda>x. a_id x = snd e) (nodeAssets (allNodes ag)) of
              None \<Rightarrow> []
            | Some x \<Rightarrow> [x])
      else [])"

definition bundleRootAssets :: "AssetGraph \<Rightarrow> BundleGraph \<Rightarrow> Bundle \<Rightarrow> Asset list" where
  "bundleRootAssets ag bg b = concat (map (rootAsset ag b) (bg_roots bg))"

text \<open>
  \<^verbatim>\<open>removeAssetGraphFromBundle\<close>: removes the assets that are reachable from the asset within
  the bundle and that no other root of the bundle reaches without passing through the asset.
  The asset is no longer a root of the bundle.
\<close>

definition bundleChildrenAvoiding ::
  "AssetGraph \<Rightarrow> Bundle \<Rightarrow> BundleGraph \<Rightarrow> Asset \<Rightarrow> Node \<Rightarrow> Node list" where
  "bundleChildrenAvoiding ag b bg a n = removeAll (AssetNode a) (bundleChildren ag b bg n)"

definition reachableInBundle :: "AssetGraph \<Rightarrow> Bundle \<Rightarrow> BundleGraph \<Rightarrow> Asset \<Rightarrow> Asset list" where
  "reachableInBundle ag b bg a =
     (if hasAsset bg b a
      then nodeAssets (snd (dfs (\<lambda>_. bundleChildren ag b bg) (AssetNode a # allNodes ag) noVisit
                              [AssetNode a] [] ()))
      else [])"

definition otherRoots :: "AssetGraph \<Rightarrow> Bundle \<Rightarrow> BundleGraph \<Rightarrow> Asset \<Rightarrow> Asset list" where
  "otherRoots ag b bg a = filter (\<lambda>r. a_id r \<noteq> a_id a) (bundleRootAssets ag bg b)"

definition keptInBundle :: "AssetGraph \<Rightarrow> Bundle \<Rightarrow> BundleGraph \<Rightarrow> Asset \<Rightarrow> Asset list" where
  "keptInBundle ag b bg a =
     nodeAssets (snd (dfs (\<lambda>_. bundleChildrenAvoiding ag b bg a) (allNodes ag) noVisit
                        (map AssetNode (otherRoots ag b bg a)) [] ()))"

definition removedFromBundle :: "AssetGraph \<Rightarrow> Bundle \<Rightarrow> BundleGraph \<Rightarrow> Asset \<Rightarrow> string list" where
  "removedFromBundle ag b bg a =
     filter (\<lambda>x. x \<notin> set (map a_id (keptInBundle ag b bg a)))
       (map a_id (reachableInBundle ag b bg a))"

definition keepsEdge :: "string \<Rightarrow> string list \<Rightarrow> string \<times> string \<Rightarrow> bool" where
  "keepsEdge bid removed e = (\<not> (fst e = bid \<and> snd e \<in> set removed))"

definition removeAssetGraphFromBundle ::
  "AssetGraph \<Rightarrow> Asset \<Rightarrow> Bundle \<Rightarrow> BundleGraph \<Rightarrow> BundleGraph" where
  "removeAssetGraphFromBundle ag a b bg =
     bg\<lparr>bg_roots := removeAll (b_id b, a_id a) (bg_roots bg),
        bg_contains := filter (keepsEdge (b_id b) (removedFromBundle ag b bg a)) (bg_contains bg)\<rparr>"

definition createAssetReference :: "Dependency \<Rightarrow> Asset \<Rightarrow> BundleGraph \<Rightarrow> BundleGraph" where
  "createAssetReference d a bg =
     bg\<lparr>bg_assetReferences := setAdd (d_id d, a_id a) (bg_assetReferences bg)\<rparr>"

definition createBundleReference :: "Bundle \<Rightarrow> Bundle \<Rightarrow> BundleGraph \<Rightarrow> BundleGraph" where
  "createBundleReference from to bg =
     bg\<lparr>bg_bundleReferences := setAdd (b_id from, b_id to) (bg_bundleReferences bg)\<rparr>"

text \<open>\<^verbatim>\<open>internalizeAsyncDependency\<close> marks the dependency as satisfied inside the bundle.\<close>

definition internalizeAsyncDependency :: "Bundle \<Rightarrow> Dependency \<Rightarrow> BundleGraph \<Rightarrow> BundleGraph" where
  "internalizeAsyncDependency b d bg =
     bg\<lparr>bg_internalized := setAdd (b_id b, d_id d) (bg_internalized bg)\<rparr>"

text \<open>
  \<^verbatim>\<open>removeBundleGroup\<close> removes the group, and the bundles of the group that are in no other
  group.
\<close>

definition inSomeGroup :: "(BundleGroup \<times> Bundle list) list \<Rightarrow> Bundle \<Rightarrow> bool" where
  "inSomeGroup groups b = list_ex (\<lambda>gm. b \<in> set (snd gm)) groups"

definition survives :: "Bundle list \<Rightarrow> (BundleGroup \<times> Bundle list) list \<Rightarrow> Bundle \<Rightarrow> bool" where
  "survives members remaining b = (b \<notin> set members \<or> inSomeGroup remaining b)"

definition removeBundleGroup :: "BundleGroup \<Rightarrow> BundleGraph \<Rightarrow> BundleGraph" where
  "removeBundleGroup g bg =
     bg\<lparr>bg_groups := filter (\<lambda>gm. fst gm \<noteq> g) (bg_groups bg),
        bg_bundles :=
          filter (survives (getBundlesInBundleGroup bg g)
                    (filter (\<lambda>gm. fst gm \<noteq> g) (bg_groups bg)))
            (bg_bundles bg)\<rparr>"

text \<open>
  \<^verbatim>\<open>traverseBundles\<close> visits every bundle of the graph once; the model takes the bundles in
  creation order, on the way down and on the way up.
\<close>

definition traverseBundles :: "(Bundle \<Rightarrow> BundleGraph \<Rightarrow> BundleGraph) \<Rightarrow> BundleGraph \<Rightarrow> BundleGraph" where
  "traverseBundles visit bg = fold visit (bg_bundles bg) bg"

text \<open>
  \<^verbatim>\<open>bundle.traverse\<close> visits the assets and dependencies of the bundle depth-first from its roots,
  reading the bundle's contents as the visitor changes them.
\<close>

definition containedChildren :: "AssetGraph \<Rightarrow> Bundle \<Rightarrow> BundleGraph \<Rightarrow> Node \<Rightarrow> Node list" where
  "containedChildren ag b bg n =
     (case n of
        AssetNode a \<Rightarrow> map DependencyNode (getDependencies ag a)
      | DependencyNode d \<Rightarrow> map AssetNode (filter (hasAsset bg b) (getDependencyAssets ag d)))"

definition plainVisit :: "(Node \<Rightarrow> BundleGraph \<Rightarrow> BundleGraph) \<Rightarrow> Node \<Rightarrow> BundleGraph \<Rightarrow> BundleGraph \<times> bool" where
  "plainVisit visit n bg = (visit n bg, False)"

definition bundleTraverse ::
  "AssetGraph \<Rightarrow> Bundle \<Rightarrow> (Node \<Rightarrow> BundleGraph \<Rightarrow> BundleGraph) \<Rightarrow> BundleGraph \<Rightarrow> BundleGraph" where
  "bundleTraverse ag b visit bg =
     fst (dfs (containedChildren ag b) (allNodes ag) (plainVisit visit)
            (map AssetNode (filter (hasAsset bg b) (bundleRootAssets ag bg b))) [] bg)"

text \<open>A loop whose body may throw: the first error ends it.\<close>

fun forEach :: "('a \<Rightarrow> 's \<Rightarrow> error + 's) \<Rightarrow> 'a list \<Rightarrow> 's \<Rightarrow> error + 's" where
  "forEach body [] s = Inr s"
| "forEach body (x # xs) s = (case body x s of Inl e \<Rightarrow> Inl e | Inr s' \<Rightarrow> forEach body xs s')"

section \<open>Pass 1: the visitor of \<^verbatim>\<open>bundle\<close>\<close>

text \<open>
  The state of \<^verbatim>\<open>bundle\<close>: the bundle graph and the three maps of the closure. The arrays of
  \<^verbatim>\<open>siblingBundlesByAsset\<close> and the maps \<^verbatim>\<open>bundleByType\<close> are shared between keys and between
  contexts and are mutated in place, so they live in a store and are named by their index.
\<close>

record BundlerState =
  bs_graph :: BundleGraph
  bs_bundleRoots :: "(Bundle \<times> Asset list) list"
  bs_bundlesByEntryAsset :: "(Asset \<times> Bundle) list"
  bs_siblingBundlesByAsset :: "(string \<times> nat) list"
  bs_arrays :: "Bundle list list"
  bs_maps :: "(string \<times> Bundle) list list"

text \<open>The context the visitor returns for the children of a node.\<close>

record Ctx =
  ctx_bundleGroup :: "BundleGroup option"
  ctx_bundleByType :: "nat option"
  ctx_bundleGroupDependency :: "Dependency option"
  ctx_parentNode :: Node
  ctx_parentBundle :: "Bundle option"

definition arrayAt :: "BundlerState \<Rightarrow> nat \<Rightarrow> Bundle list" where
  "arrayAt st i = (if i < length (bs_arrays st) then bs_arrays st ! i else [])"

definition mapAt :: "BundlerState \<Rightarrow> nat \<Rightarrow> (string \<times> Bundle) list" where
  "mapAt st i = (if i < length (bs_maps st) then bs_maps st ! i else [])"

text \<open>\<^verbatim>\<open>siblingBundlesByAsset.set(id, [])\<close>: a fresh array.\<close>

definition setFreshSiblings :: "string \<Rightarrow> BundlerState \<Rightarrow> BundlerState" where
  "setFreshSiblings aid st =
     st\<lparr>bs_siblingBundlesByAsset :=
          mapSet aid (length (bs_arrays st)) (bs_siblingBundlesByAsset st),
        bs_arrays := bs_arrays st @ [[]]\<rparr>"

text \<open>The condition of the branch that opens a bundle group.\<close>

definition opensBundleGroup :: "Dependency \<Rightarrow> Asset option \<Rightarrow> bool" where
  "opensBundleGroup dependency resolution =
     ((d_isEntry dependency \<and> resolution \<noteq> None) \<or>
      (d_isAsync dependency \<and> resolution \<noteq> None) \<or>
      (case resolution of None \<Rightarrow> False | Some r \<Rightarrow> a_isIsolated r) \<or>
      (case resolution of None \<Rightarrow> False | Some r \<Rightarrow> a_isInline r))"

text \<open>\<^verbatim>\<open>dependency.target ?? context?.bundleGroup?.target\<close>.\<close>

definition groupTarget :: "Dependency \<Rightarrow> Ctx option \<Rightarrow> string option" where
  "groupTarget dependency ctx =
     (case d_target dependency of
        Some t \<Rightarrow> Some t
      | None \<Rightarrow>
          (case ctx of
             None \<Rightarrow> None
           | Some c \<Rightarrow> (case ctx_bundleGroup c of None \<Rightarrow> None | Some g \<Rightarrow> Some (g_target g))))"

definition entryBundleOpts :: "Dependency \<Rightarrow> BundleGroup \<Rightarrow> Asset \<Rightarrow> BundleOpts" where
  "entryBundleOpts dependency bundleGroup asset =
     \<lparr>o_entryAsset = Some asset,
      o_uniqueKey = None,
      o_type = None,
      o_env = None,
      o_target = g_target bundleGroup,
      o_isEntry = Some (if a_isIsolated asset then False else d_isEntry dependency),
      o_isInline = Some (a_isInline asset),
      o_isSplittable = None\<rparr>"

text \<open>The body of the loop over the assets in the branch that opens a bundle group.\<close>

definition createEntryBundle ::
  "(Asset \<Rightarrow> bool) \<Rightarrow> Dependency \<Rightarrow> BundleGroup \<Rightarrow> nat \<Rightarrow> Asset \<Rightarrow> BundlerState
    \<Rightarrow> error + BundlerState" where
  "createEntryBundle splittable dependency bundleGroup bundleByType asset st =
     (case createBundle splittable (entryBundleOpts dependency bundleGroup asset) (bs_graph st) of
        Inl e \<Rightarrow> Inl e
      | Inr (b, g) \<Rightarrow>
          Inr (setFreshSiblings (a_id asset)
                 (st\<lparr>bs_maps := (bs_maps st)[bundleByType := mapSet (b_type b) b (mapAt st bundleByType)],
                     bs_bundleRoots := mapSet b [asset] (bs_bundleRoots st),
                     bs_bundlesByEntryAsset := mapSet asset b (bs_bundlesByEntryAsset st),
                     bs_graph := addBundleToBundleGroup b bundleGroup g\<rparr>)))"

definition siblingBundleOpts :: "Dependency \<Rightarrow> BundleGroup \<Rightarrow> Asset \<Rightarrow> BundleOpts" where
  "siblingBundleOpts bundleGroupDependency bundleGroup asset =
     \<lparr>o_entryAsset = Some asset,
      o_uniqueKey = None,
      o_type = None,
      o_env = None,
      o_target = g_target bundleGroup,
      o_isEntry = Some (d_isEntry bundleGroupDependency),
      o_isInline = Some (a_isInline asset),
      o_isSplittable = None\<rparr>"

text \<open>
  The body of the loop over the assets in the other branch. \<open>siblingBundles\<close> is the array of
  the parent asset, by its index in the store.
\<close>

definition placeAsset ::
  "(Asset \<Rightarrow> bool) \<Rightarrow> Dependency \<Rightarrow> Asset \<Rightarrow> Bundle \<Rightarrow> BundleGroup \<Rightarrow> Dependency \<Rightarrow> nat \<Rightarrow> nat
    \<Rightarrow> bool \<Rightarrow> Asset \<Rightarrow> BundlerState \<Rightarrow> error + BundlerState" where
  "placeAsset splittable dependency parentAsset parentBundle bundleGroup bundleGroupDependency
       bundleByType siblingBundles allSameType asset st =
     (let siblings = map_of (bs_siblingBundlesByAsset st) (a_id asset)
      in if a_type parentAsset = a_type asset
         then (if allSameType \<and> siblings \<noteq> None
               then Inr (st\<lparr>bs_graph :=
                              fold (\<lambda>b. addBundleToBundleGroup b bundleGroup)
                                (case siblings of None \<Rightarrow> [] | Some i \<Rightarrow> arrayAt st i)
                                (bs_graph st)\<rparr>)
               else if siblings = None
               then (if allSameType
                     then Inr (st\<lparr>bs_siblingBundlesByAsset :=
                                    mapSet (a_id asset) siblingBundles (bs_siblingBundlesByAsset st)\<rparr>)
                     else Inr (setFreshSiblings (a_id asset) st))
               else Inr st)
         else (case (case map_of (mapAt st bundleByType) (a_type asset) of
                       Some existingBundle \<Rightarrow>
                         (case map_of (bs_bundleRoots st) existingBundle of
                            None \<Rightarrow> Inl NullThrows
                          | Some rootAssets \<Rightarrow>
                              Inr (st\<lparr>bs_bundleRoots :=
                                         mapSet existingBundle (rootAssets @ [asset])
                                           (bs_bundleRoots st),
                                       bs_graph :=
                                         createAssetReference dependency asset (bs_graph st)\<rparr>))
                     | None \<Rightarrow>
                         (case createBundle splittable
                                 (siblingBundleOpts bundleGroupDependency bundleGroup asset)
                                 (bs_graph st) of
                            Inl e \<Rightarrow> Inl e
                          | Inr (b, g) \<Rightarrow>
                              Inr (st\<lparr>bs_maps :=
                                         (bs_maps st)[bundleByType :=
                                            mapSet (b_type b) b (mapAt st bundleByType)],
                                       bs_arrays :=
                                         (bs_arrays st)[siblingBundles :=
                                            arrayAt st siblingBundles @ [b]],
                                       bs_bundleRoots := mapSet b [asset] (bs_bundleRoots st),
                                       bs_bundlesByEntryAsset :=
                                         mapSet asset b (bs_bundlesByEntryAsset st),
                                       bs_graph :=
                                         addBundleToBundleGroup b bundleGroup
                                           (createBundleReference parentBundle b
                                              (createAssetReference dependency asset g))\<rparr>))) of
                 Inl e \<Rightarrow> Inl e
               | Inr st' \<Rightarrow>
                   Inr (if siblings = None then setFreshSiblings (a_id asset) st' else st')))"

text \<open>
  The visitor \<^verbatim>\<open>enter\<close>. The context is \<open>None\<close> where the source has \<^verbatim>\<open>undefined\<close>; a failed
  \<^verbatim>\<open>nullthrows\<close> or \<^verbatim>\<open>invariant\<close> is an error.
\<close>

definition enter ::
  "(Asset \<Rightarrow> bool) \<Rightarrow> AssetGraph \<Rightarrow> Node \<Rightarrow> Ctx option \<Rightarrow> BundlerState
    \<Rightarrow> error + (Ctx \<times> BundlerState)" where
  "enter splittable ag node ctx st =
     (case node of
        AssetNode a \<Rightarrow>
          Inr (\<lparr>ctx_bundleGroup = (case ctx of None \<Rightarrow> None | Some c \<Rightarrow> ctx_bundleGroup c),
                ctx_bundleByType = (case ctx of None \<Rightarrow> None | Some c \<Rightarrow> ctx_bundleByType c),
                ctx_bundleGroupDependency =
                  (case ctx of None \<Rightarrow> None | Some c \<Rightarrow> ctx_bundleGroupDependency c),
                ctx_parentNode = node,
                ctx_parentBundle =
                  (case map_of (bs_bundlesByEntryAsset st) a of
                     Some b \<Rightarrow> Some b
                   | None \<Rightarrow> (case ctx of None \<Rightarrow> None | Some c \<Rightarrow> ctx_parentBundle c))\<rparr>,
               st)
      | DependencyNode dependency \<Rightarrow>
          (let assets = getDependencyAssets ag dependency;
               resolution = getDependencyResolution ag dependency
           in if opensBundleGroup dependency resolution
              then (case groupTarget dependency ctx of
                      None \<Rightarrow> Inl NullThrows
                    | Some target \<Rightarrow>
                        (case createBundleGroup dependency target (bs_graph st) of
                           (bundleGroup, g) \<Rightarrow>
                             (case forEach
                                     (createEntryBundle splittable dependency bundleGroup
                                        (length (bs_maps st)))
                                     assets
                                     (st\<lparr>bs_graph := g, bs_maps := bs_maps st @ [[]]\<rparr>) of
                                Inl e \<Rightarrow> Inl e
                              | Inr st' \<Rightarrow>
                                  Inr (\<lparr>ctx_bundleGroup = Some bundleGroup,
                                        ctx_bundleByType = Some (length (bs_maps st)),
                                        ctx_bundleGroupDependency = Some dependency,
                                        ctx_parentNode = node,
                                        ctx_parentBundle =
                                          (case ctx of None \<Rightarrow> None | Some c \<Rightarrow> ctx_parentBundle c)\<rparr>,
                                       st'))))
              else (case ctx of
                      None \<Rightarrow> Inl InvariantViolation
                    | Some c \<Rightarrow>
                        (case ctx_parentNode c of
                           DependencyNode _ \<Rightarrow> Inl InvariantViolation
                         | AssetNode parentAsset \<Rightarrow>
                             (case ctx_parentBundle c of
                                None \<Rightarrow> Inl InvariantViolation
                              | Some parentBundle \<Rightarrow>
                                  (case (ctx_bundleGroup c, ctx_bundleGroupDependency c,
                                         ctx_bundleByType c,
                                         map_of (bs_siblingBundlesByAsset st) (a_id parentAsset)) of
                                     (Some bundleGroup, Some bundleGroupDependency,
                                      Some bundleByType, Some siblingBundles) \<Rightarrow>
                                       (case forEach
                                               (placeAsset splittable dependency parentAsset
                                                  parentBundle bundleGroup bundleGroupDependency
                                                  bundleByType siblingBundles
                                                  (list_all (\<lambda>a. a_type a = a_type parentAsset)
                                                     assets))
                                               assets st of
                                          Inl e \<Rightarrow> Inl e
                                        | Inr st' \<Rightarrow> Inr (c\<lparr>ctx_parentNode := node\<rparr>, st'))
                                   | _ \<Rightarrow> Inl NullThrows))))))"

text \<open>The loop after the traversal: the roots of every bundle are attached to it.\<close>

definition attachBundleRoots :: "AssetGraph \<Rightarrow> Bundle \<times> Asset list \<Rightarrow> BundleGraph \<Rightarrow> BundleGraph" where
  "attachBundleRoots ag entry bg =
     fold (\<lambda>asset. addAssetGraphToBundle ag asset (fst entry)) (snd entry) bg"

definition attachRoots :: "AssetGraph \<Rightarrow> BundlerState \<Rightarrow> BundleGraph" where
  "attachRoots ag st = fold (attachBundleRoots ag) (bs_bundleRoots st) (bs_graph st)"

section \<open>The optimizer\<close>

subsection \<open>Ancestor dedup\<close>

text \<open>The body of the loop over the assets of a dependency in \<^verbatim>\<open>deduplicateBundle\<close>.\<close>

definition deduplicateAsset :: "AssetGraph \<Rightarrow> Bundle \<Rightarrow> Asset \<Rightarrow> BundleGraph \<Rightarrow> BundleGraph" where
  "deduplicateAsset ag b asset bg =
     (if hasAsset bg b asset \<and> isAssetInAncestorBundles bg b asset
      then removeAssetGraphFromBundle ag asset b bg
      else bg)"

text \<open>The callback of \<^verbatim>\<open>bundle.traverse\<close>.\<close>

definition deduplicateVisit :: "AssetGraph \<Rightarrow> Bundle \<Rightarrow> Node \<Rightarrow> BundleGraph \<Rightarrow> BundleGraph" where
  "deduplicateVisit ag b node bg =
     (case node of
        AssetNode _ \<Rightarrow> bg
      | DependencyNode dependency \<Rightarrow>
          fold (deduplicateAsset ag b) (getDependencyAssets ag dependency) bg)"

definition deduplicateBundle :: "AssetGraph \<Rightarrow> Bundle \<Rightarrow> BundleGraph \<Rightarrow> BundleGraph" where
  "deduplicateBundle ag b bg =
     (if isIsolated (b_env b) \<or> \<not> b_isSplittable b
      then bg
      else bundleTraverse ag b (deduplicateVisit ag b) bg)"

subsection \<open>Step 2: remove asset graphs that begin with entries to other bundles\<close>

text \<open>The two nested loops that add \<^verbatim>\<open>[bundle, ...siblings]\<close> to the bundle groups.\<close>

definition addBundlesToGroup :: "Bundle list \<Rightarrow> BundleGroup \<Rightarrow> BundleGraph \<Rightarrow> BundleGraph" where
  "addBundlesToGroup bundlesToAdd bundleGroup bg =
     fold (\<lambda>bundleToAdd. addBundleToBundleGroup bundleToAdd bundleGroup) bundlesToAdd bg"

definition addBundlesToGroups :: "Bundle list \<Rightarrow> BundleGroup list \<Rightarrow> BundleGraph \<Rightarrow> BundleGraph" where
  "addBundlesToGroups bundlesToAdd bundleGroups bg =
     fold (addBundlesToGroup bundlesToAdd) bundleGroups bg"

text \<open>The test of the parallel request limit.\<close>

definition hasRoom :: "BundleGraph \<Rightarrow> BundleGroup \<Rightarrow> bool" where
  "hasRoom bg bundleGroup =
     (length (getBundlesInBundleGroup bg bundleGroup) < maxParallelRequests)"

text \<open>The body of the loop over the candidates.\<close>

definition reparentCandidate ::
  "AssetGraph \<Rightarrow> Bundle \<Rightarrow> Bundle list \<Rightarrow> Asset \<Rightarrow> Bundle \<Rightarrow> BundleGraph \<Rightarrow> BundleGraph" where
  "reparentCandidate ag b siblings mainEntry candidate bg =
     (if list_all (hasRoom bg) (getBundleGroupsContainingBundle bg candidate)
      then addBundlesToGroups (b # siblings) (getBundleGroupsContainingBundle bg candidate)
             (removeAssetGraphFromBundle ag mainEntry candidate bg)
      else bg)"

definition reparentSiblings :: "BundleGraph \<Rightarrow> Bundle \<Rightarrow> Bundle list" where
  "reparentSiblings bg b = filter (\<lambda>sibling. \<not> b_isInline sibling) (getReferencedBundles bg b)"

definition isReparentCandidate :: "Bundle \<Rightarrow> Bundle \<Rightarrow> bool" where
  "isReparentCandidate b containingBundle =
     (b_id containingBundle \<noteq> b_id b \<and>
      \<not> b_isEntry containingBundle \<and>
      \<not> b_isInline containingBundle \<and>
      b_isSplittable containingBundle)"

definition reparentCandidates :: "BundleGraph \<Rightarrow> Bundle \<Rightarrow> Asset \<Rightarrow> Bundle list" where
  "reparentCandidates bg b mainEntry =
     filter (isReparentCandidate b) (findBundlesWithAsset bg mainEntry)"

text \<open>The callback of the first \<^verbatim>\<open>traverseBundles\<close>.\<close>

definition reparentVisit :: "AssetGraph \<Rightarrow> Bundle \<Rightarrow> BundleGraph \<Rightarrow> BundleGraph" where
  "reparentVisit ag b bg =
     (if b_isInline b \<or> \<not> b_isSplittable b then bg
      else (case getMainEntry b of
              None \<Rightarrow> bg
            | Some mainEntry \<Rightarrow>
                fold (reparentCandidate ag b (reparentSiblings bg b) mainEntry)
                  (reparentCandidates bg b mainEntry) bg))"

definition pass2 :: "AssetGraph \<Rightarrow> BundleGraph \<Rightarrow> BundleGraph" where
  "pass2 ag bg = traverseBundles (reparentVisit ag) bg"

subsection \<open>Step 3: remove assets that are duplicated in a parent bundle\<close>

definition pass3 :: "AssetGraph \<Rightarrow> BundleGraph \<Rightarrow> BundleGraph" where
  "pass3 ag bg = traverseBundles (deduplicateBundle ag) bg"

subsection \<open>Step 4: separate duplicated assets into shared bundles\<close>

record Candidate =
  c_assets :: "Asset list"
  c_sourceBundles :: "Bundle list"
  c_size :: int

text \<open>The filter on the bundles that contain the asset.\<close>

definition isSourceBundle :: "Asset \<Rightarrow> Bundle \<Rightarrow> bool" where
  "isSourceBundle asset b =
     (\<not> b_isEntry b \<and> b_isSplittable b \<and>
      (case getMainEntry b of None \<Rightarrow> True | Some mainEntry \<Rightarrow> a_id mainEntry \<noteq> a_id asset))"

definition containingBundles :: "BundleGraph \<Rightarrow> Asset \<Rightarrow> Bundle list" where
  "containingBundles bg asset = filter (isSourceBundle asset) (findBundlesWithAsset bg asset)"

text \<open>The key of a candidate: \<^verbatim>\<open>containingBundles.map(b => b.id).sort().join(':')\<close>.\<close>

definition bucketKey :: "Bundle list \<Rightarrow> string" where
  "bucketKey bs = join '':'' (jsSort stringLess (map b_id bs))"

text \<open>The candidate after the asset was added to it, or the new candidate.\<close>

definition bucketAsset ::
  "AssetGraph \<Rightarrow> Asset \<Rightarrow> Bundle list \<Rightarrow> Candidate option \<Rightarrow> Candidate" where
  "bucketAsset ag asset cbs found =
     (case found of
        Some candidate \<Rightarrow>
          \<lparr>c_assets = c_assets candidate @ [asset],
           c_sourceBundles = fold setAdd cbs (c_sourceBundles candidate),
           c_size = c_size candidate + getTotalSize ag asset\<rparr>
      | None \<Rightarrow>
          \<lparr>c_assets = [asset],
           c_sourceBundles = newSet cbs,
           c_size = getTotalSize ag asset\<rparr>)"

text \<open>
  The callback of \<^verbatim>\<open>traverseContents\<close>: the state is the map \<^verbatim>\<open>candidateBundles\<close>, the boolean
  says whether \<^verbatim>\<open>actions.skipChildren()\<close> was called.
\<close>

definition collectVisit ::
  "AssetGraph \<Rightarrow> BundleGraph \<Rightarrow> Node \<Rightarrow> (string \<times> Candidate) list
    \<Rightarrow> (string \<times> Candidate) list \<times> bool" where
  "collectVisit ag bg node candidateBundles =
     (case node of
        DependencyNode _ \<Rightarrow> (candidateBundles, False)
      | AssetNode asset \<Rightarrow>
          (if length (containingBundles bg asset) > minBundles
           then (mapSet (bucketKey (containingBundles bg asset))
                   (bucketAsset ag asset (containingBundles bg asset)
                      (map_of candidateBundles (bucketKey (containingBundles bg asset))))
                   candidateBundles,
                 True)
           else (candidateBundles, False)))"

definition collectCandidates :: "AssetGraph \<Rightarrow> BundleGraph \<Rightarrow> (string \<times> Candidate) list" where
  "collectCandidates ag bg = traverseContents ag (collectVisit ag bg) []"

text \<open>
  \<^verbatim>\<open>sortedCandidates\<close>: the comparator \<^verbatim>\<open>(a, b) => b.size - a.size\<close> puts \<open>a\<close> before \<open>b\<close> when
  \<open>b\<close> is smaller.
\<close>

definition largerFirst :: "Candidate \<Rightarrow> Candidate \<Rightarrow> bool" where
  "largerFirst a b = (c_size b < c_size a)"

definition meetsThreshold :: "Candidate \<Rightarrow> bool" where
  "meetsThreshold c = (c_size c \<ge> minBundleSize)"

definition sortedCandidates :: "(string \<times> Candidate) list \<Rightarrow> Candidate list" where
  "sortedCandidates candidateBundles =
     jsSort largerFirst (filter meetsThreshold (map snd candidateBundles))"

text \<open>
  The options of the shared bundle. \<open>md5FromString\<close> is the digest function of
  \<^verbatim>\<open>@parcel/utils\<close>, which is not among the sources: the model takes it as a parameter.
\<close>

definition sharedBundleOpts :: "(string \<Rightarrow> string) \<Rightarrow> Bundle list \<Rightarrow> Bundle \<Rightarrow> BundleOpts" where
  "sharedBundleOpts md5FromString sourceBundles firstBundle =
     \<lparr>o_entryAsset = None,
      o_uniqueKey = Some (md5FromString (join '':'' (map b_id sourceBundles))),
      o_type = Some (b_type firstBundle),
      o_env = Some (b_env firstBundle),
      o_target = b_target firstBundle,
      o_isEntry = None,
      o_isInline = None,
      o_isSplittable = Some True\<rparr>"

text \<open>The bundle groups connected to the source bundles, a set.\<close>

definition addGroupsOf :: "BundleGraph \<Rightarrow> Bundle \<Rightarrow> BundleGroup list \<Rightarrow> BundleGroup list" where
  "addGroupsOf bg b bundleGroups = fold setAdd (getBundleGroupsContainingBundle bg b) bundleGroups"

definition candidateBundleGroups :: "BundleGraph \<Rightarrow> Bundle list \<Rightarrow> BundleGroup list" where
  "candidateBundleGroups bg sourceBundles = fold (addGroupsOf bg) sourceBundles []"

definition isFull :: "BundleGraph \<Rightarrow> BundleGroup \<Rightarrow> bool" where
  "isFull bg bundleGroup =
     (length (getBundlesInBundleGroup bg bundleGroup) \<ge> maxParallelRequests)"

text \<open>The body of the loop that moves the assets of the candidate.\<close>

definition moveAsset ::
  "AssetGraph \<Rightarrow> Bundle \<Rightarrow> Bundle list \<Rightarrow> Asset \<Rightarrow> BundleGraph \<Rightarrow> BundleGraph" where
  "moveAsset ag sharedBundle sourceBundles asset bg =
     fold (removeAssetGraphFromBundle ag asset) sourceBundles
       (addAssetGraphToBundle ag asset sharedBundle bg)"

definition addToGroups :: "Bundle \<Rightarrow> BundleGroup list \<Rightarrow> BundleGraph \<Rightarrow> BundleGraph" where
  "addToGroups sharedBundle bundleGroups bg =
     fold (addBundleToBundleGroup sharedBundle) bundleGroups bg"

text \<open>What the loop does with the shared bundle once it is created.\<close>

definition fillSharedBundle ::
  "AssetGraph \<Rightarrow> Candidate \<Rightarrow> BundleGroup list \<Rightarrow> Bundle \<Rightarrow> BundleGraph \<Rightarrow> BundleGraph" where
  "fillSharedBundle ag cand bundleGroups sharedBundle bg =
     deduplicateBundle ag sharedBundle
       (addToGroups sharedBundle bundleGroups
          (fold (moveAsset ag sharedBundle (c_sourceBundles cand)) (c_assets cand) bg))"

text \<open>
  The body of the loop over \<^verbatim>\<open>sortedCandidates\<close>. Destructuring an empty set leaves
  \<^verbatim>\<open>firstBundle\<close> undefined, and reading its \<^verbatim>\<open>env\<close> throws.
\<close>

definition extractSharedBundle ::
  "(string \<Rightarrow> string) \<Rightarrow> AssetGraph \<Rightarrow> Candidate \<Rightarrow> BundleGraph \<Rightarrow> error + BundleGraph" where
  "extractSharedBundle md5FromString ag cand bg =
     (if list_ex (isFull bg) (candidateBundleGroups bg (c_sourceBundles cand))
      then Inr bg
      else (case c_sourceBundles cand of
              [] \<Rightarrow> Inl TypeError
            | firstBundle # _ \<Rightarrow>
                (case createBundle (\<lambda>_. False)
                        (sharedBundleOpts md5FromString (c_sourceBundles cand) firstBundle) bg of
                   Inl e \<Rightarrow> Inl e
                 | Inr created \<Rightarrow>
                     Inr (fillSharedBundle ag cand
                            (candidateBundleGroups bg (c_sourceBundles cand))
                            (fst created) (snd created)))))"

definition pass4 :: "(string \<Rightarrow> string) \<Rightarrow> AssetGraph \<Rightarrow> BundleGraph \<Rightarrow> error + BundleGraph" where
  "pass4 md5FromString ag bg =
     forEach (extractSharedBundle md5FromString ag)
       (sortedCandidates (collectCandidates ag bg)) bg"

subsection \<open>Step 5: internalize async dependencies\<close>

text \<open>The body of the loop over the bundles that contain the dependency.\<close>

definition internalizeIn :: "Dependency \<Rightarrow> Asset \<Rightarrow> Bundle \<Rightarrow> BundleGraph \<Rightarrow> BundleGraph" where
  "internalizeIn dependency resolution b bg =
     (if hasAsset bg b resolution \<or> isAssetInAncestorBundles bg b resolution
      then internalizeAsyncDependency b dependency bg
      else bg)"

text \<open>
  The callback of \<^verbatim>\<open>bundleGraph.traverse\<close> on a dependency that is async and not an entry, in
  the bundle graph \<open>bg\<close> with the set \<^verbatim>\<open>asyncBundleGroups\<close>.
\<close>

definition internalizeDependency ::
  "AssetGraph \<Rightarrow> Dependency \<Rightarrow> BundleGraph \<Rightarrow> BundleGroup list
    \<Rightarrow> error + (BundleGraph \<times> BundleGroup list)" where
  "internalizeDependency ag dependency bg asyncBundleGroups =
     (case getDependencyResolution ag dependency of
        None \<Rightarrow> Inr (bg, asyncBundleGroups)
      | Some resolution \<Rightarrow>
          (case resolveExternalDependency bg dependency of
             Some (ExtBundleGroup bundleGroup) \<Rightarrow>
               Inr (fold (internalizeIn dependency resolution)
                      (findBundlesWithDependency ag bg dependency) bg,
                    setAdd bundleGroup asyncBundleGroups)
           | _ \<Rightarrow> Inl InvariantViolation))"

text \<open>
  The callback itself: the state is the bundle graph with the set, or the error of a failed
  \<^verbatim>\<open>invariant\<close>, after which nothing runs.
\<close>

definition internalizeVisit ::
  "AssetGraph \<Rightarrow> Node \<Rightarrow> error + (BundleGraph \<times> BundleGroup list)
    \<Rightarrow> (error + (BundleGraph \<times> BundleGroup list)) \<times> bool" where
  "internalizeVisit ag node st =
     (case st of
        Inl e \<Rightarrow> (Inl e, False)
      | Inr s \<Rightarrow>
          (case node of
             AssetNode _ \<Rightarrow> (st, False)
           | DependencyNode dependency \<Rightarrow>
               if d_isEntry dependency \<or> \<not> d_isAsync dependency then (st, False)
               else (internalizeDependency ag dependency (fst s) (snd s), False)))"

text \<open>The loop that removes the bundle groups without parent bundles, and its body.\<close>

definition removeIfOrphan :: "AssetGraph \<Rightarrow> BundleGroup \<Rightarrow> BundleGraph \<Rightarrow> BundleGraph" where
  "removeIfOrphan ag bundleGroup bg =
     (if length (getParentBundlesOfBundleGroup ag bg bundleGroup) = 0
      then removeBundleGroup bundleGroup bg
      else bg)"

definition removeOrphans :: "AssetGraph \<Rightarrow> BundleGroup list \<Rightarrow> BundleGraph \<Rightarrow> BundleGraph" where
  "removeOrphans ag asyncBundleGroups bg = fold (removeIfOrphan ag) asyncBundleGroups bg"

definition pass5 :: "AssetGraph \<Rightarrow> BundleGraph \<Rightarrow> error + BundleGraph" where
  "pass5 ag bg =
     (case traverse ag (internalizeVisit ag) (Inr (bg, [])) of
        Inl e \<Rightarrow> Inl e
      | Inr s \<Rightarrow> Inr (removeOrphans ag (snd s) (fst s)))"

definition optimize :: "(string \<Rightarrow> string) \<Rightarrow> AssetGraph \<Rightarrow> BundleGraph \<Rightarrow> error + BundleGraph" where
  "optimize md5FromString ag bg =
     (case pass4 md5FromString ag (pass3 ag (pass2 ag bg)) of
        Inl e \<Rightarrow> Inl e
      | Inr bg4 \<Rightarrow> pass5 ag bg4)"

section \<open>Observations and example graphs\<close>

text \<open>The ids of the assets a bundle contains, in the order they were attached.\<close>

definition bundleContents :: "BundleGraph \<Rightarrow> Bundle \<Rightarrow> string list" where
  "bundleContents bg b = map snd (filter (\<lambda>e. fst e = b_id b) (bg_contains bg))"

text \<open>Every bundle group of the graph has at most \<^verbatim>\<open>maxParallelRequests\<close> bundles.\<close>

definition withinLimit :: "BundleGraph \<Rightarrow> bool" where
  "withinLimit bg =
     list_all (\<lambda>g. length (getBundlesInBundleGroup bg g) \<le> maxParallelRequests)
       (map fst (bg_groups bg))"

text \<open>The states of the traversal of pass 5 whose bundle graph has the groups of \<open>bg\<close>.\<close>

definition sameGroups ::
  "BundleGraph \<Rightarrow> error + (BundleGraph \<times> BundleGroup list) \<Rightarrow> bool" where
  "sameGroups bg st = (case st of Inl e \<Rightarrow> True | Inr s \<Rightarrow> bg_groups (fst s) = bg_groups bg)"

text \<open>Two bundle graphs that differ at most in the roots and the contents of their bundles.\<close>

definition sameOutsideContents :: "BundleGraph \<Rightarrow> BundleGraph \<Rightarrow> bool" where
  "sameOutsideContents g h =
     (bg_bundles g = bg_bundles h \<and> bg_groups g = bg_groups h \<and>
      bg_bundleReferences g = bg_bundleReferences h \<and>
      bg_assetReferences g = bg_assetReferences h \<and>
      bg_internalized g = bg_internalized h)"

text \<open>
  What holds of every candidate in the map of pass 4: its size is the sum of the total sizes
  of its assets, it has more than \<^verbatim>\<open>minBundles\<close> source bundles, all different, and each
  passed the filter for one of its assets.
\<close>

definition candidateInv :: "AssetGraph \<Rightarrow> BundleGraph \<Rightarrow> Candidate \<Rightarrow> bool" where
  "candidateInv ag bg c =
     (c_size c = sum_list (map (getTotalSize ag) (c_assets c)) \<and>
      length (c_sourceBundles c) > minBundles \<and>
      distinct (c_sourceBundles c) \<and>
      list_all (\<lambda>b. list_ex (\<lambda>a. b \<in> set (containingBundles bg a)) (c_assets c))
        (c_sourceBundles c))"

text \<open>Whether the callback of pass 4 skips the children of a node.\<close>

definition skipsChildren :: "BundleGraph \<Rightarrow> Node \<Rightarrow> bool" where
  "skipsChildren bg n =
     (case n of
        AssetNode a \<Rightarrow> length (containingBundles bg a) > minBundles
      | DependencyNode _ \<Rightarrow> False)"

text \<open>Builders for the example graphs: browser assets, their dependencies and bundles.\<close>

definition exEnv :: "string \<Rightarrow> bool \<Rightarrow> Environment" where
  "exEnv c isolated =
     \<lparr>env_context = c, env_outputFormat = ''global'', env_isLibrary = False,
      env_isolated = isolated\<rparr>"

definition exAsset :: "string \<Rightarrow> int \<Rightarrow> Asset" where
  "exAsset i n =
     \<lparr>a_id = i, a_type = ''js'', a_size = n, a_isInline = False, a_isIsolated = False,
      a_env = exEnv ''browser'' False\<rparr>"

definition exDep :: "string \<Rightarrow> bool \<Rightarrow> bool \<Rightarrow> Dependency" where
  "exDep i isEntry isAsync =
     \<lparr>d_id = i, d_isEntry = isEntry, d_isAsync = isAsync,
      d_target = (if isEntry then Some ''dist'' else None)\<rparr>"

definition exBundle :: "bool \<Rightarrow> Asset \<Rightarrow> Bundle" where
  "exBundle isEntry a =
     \<lparr>b_id = a_id a, b_type = a_type a, b_env = a_env a, b_target = ''dist'',
      b_isEntry = isEntry, b_isInline = False, b_isSplittable = True, b_mainEntry = Some a\<rparr>"

definition exGroup :: "Dependency \<Rightarrow> BundleGroup" where
  "exGroup d = \<lparr>g_dependency = d, g_target = ''dist''\<rparr>"

text \<open>
  A page \<open>a\<close> that imports \<open>s\<close> and starts a worker \<open>w\<close>, which imports \<open>s\<close> too. The worker's
  bundle has an isolated environment and is referenced by the page's bundle, which contains
  \<open>s\<close>.
\<close>

definition workerAsset :: Asset where
  "workerAsset = (exAsset ''w'' 10)\<lparr>a_isIsolated := True, a_env := exEnv ''web-worker'' True\<rparr>"

definition workerAssets :: AssetGraph where
  "workerAssets =
     \<lparr>ag_entries = [exDep ''d0'' True False],
      ag_dependencies =
        [(''a'', [exDep ''a_s'' False False, exDep ''a_w'' False False]),
         (''w'', [exDep ''w_s'' False False])],
      ag_resolved =
        [(''d0'', [exAsset ''a'' 10]), (''a_s'', [exAsset ''s'' 10]),
         (''a_w'', [workerAsset]), (''w_s'', [exAsset ''s'' 10])]\<rparr>"

definition workerBundle :: Bundle where
  "workerBundle = exBundle False workerAsset"

definition workerGraph :: BundleGraph where
  "workerGraph =
     \<lparr>bg_bundles = [exBundle True (exAsset ''a'' 10), workerBundle],
      bg_groups =
        [(exGroup (exDep ''d0'' True False), [exBundle True (exAsset ''a'' 10)]),
         (exGroup (exDep ''a_w'' False False), [workerBundle])],
      bg_roots = [(''a'', ''a''), (''w'', ''w'')],
      bg_contains = [(''a'', ''a''), (''a'', ''s''), (''w'', ''w''), (''w'', ''s'')],
      bg_bundleReferences = [(''a'', ''w'')],
      bg_assetReferences = [],
      bg_internalized = []\<rparr>"

text \<open>
  A page \<open>m\<close> that imports \<open>c\<close> and \<open>e\<close> dynamically, where \<open>c\<close> imports \<open>e\<close> statically. The
  bundle of \<open>c\<close> contains \<open>e\<close> and sits with three more bundles in its group; the bundle of \<open>e\<close>
  references two sibling bundles.
\<close>

definition reparentAssets :: AssetGraph where
  "reparentAssets =
     \<lparr>ag_entries = [exDep ''d0'' True False],
      ag_dependencies =
        [(''m'', [exDep ''m_c'' False True, exDep ''m_e'' False True]),
         (''c'', [exDep ''c_e'' False False])],
      ag_resolved =
        [(''d0'', [exAsset ''m'' 10]), (''m_c'', [exAsset ''c'' 10]),
         (''m_e'', [exAsset ''e'' 10]), (''c_e'', [exAsset ''e'' 10])]\<rparr>"

definition reparentSource :: Bundle where
  "reparentSource = exBundle False (exAsset ''c'' 10)"

definition reparentEntry :: Bundle where
  "reparentEntry = exBundle False (exAsset ''e'' 10)"

definition reparentGroup :: BundleGroup where
  "reparentGroup = exGroup (exDep ''m_c'' False True)"

definition reparentGraph :: BundleGraph where
  "reparentGraph =
     \<lparr>bg_bundles =
        [exBundle True (exAsset ''m'' 10), reparentSource, reparentEntry,
         exBundle False (exAsset ''x1'' 10), exBundle False (exAsset ''x2'' 10),
         exBundle False (exAsset ''x3'' 10), exBundle False (exAsset ''s1'' 10),
         exBundle False (exAsset ''s2'' 10)],
      bg_groups =
        [(exGroup (exDep ''d0'' True False), [exBundle True (exAsset ''m'' 10)]),
         (reparentGroup,
          [reparentSource, exBundle False (exAsset ''x1'' 10),
           exBundle False (exAsset ''x2'' 10), exBundle False (exAsset ''x3'' 10)]),
         (exGroup (exDep ''m_e'' False True),
          [reparentEntry, exBundle False (exAsset ''s1'' 10),
           exBundle False (exAsset ''s2'' 10)])],
      bg_roots = [(''m'', ''m''), (''c'', ''c''), (''e'', ''e'')],
      bg_contains = [(''m'', ''m''), (''c'', ''c''), (''c'', ''e''), (''e'', ''e'')],
      bg_bundleReferences = [(''e'', ''s1''), (''e'', ''s2'')],
      bg_assetReferences = [],
      bg_internalized = []\<rparr>"

text \<open>
  A page \<open>m\<close> that imports \<open>e2\<close> and \<open>e1\<close> dynamically. Both import \<open>s\<close>, which imports \<open>t\<close>;
  \<open>e1\<close> imports \<open>t\<close> directly as well. The two async bundles differ in environment and in
  target.
\<close>

definition sharedAssets :: AssetGraph where
  "sharedAssets =
     \<lparr>ag_entries = [exDep ''d0'' True False],
      ag_dependencies =
        [(''m'', [exDep ''m_e2'' False True, exDep ''m_e1'' False True]),
         (''e2'', [exDep ''e2_s'' False False]),
         (''e1'', [exDep ''e1_s'' False False, exDep ''e1_t'' False False]),
         (''s'', [exDep ''s_t'' False False])],
      ag_resolved =
        [(''d0'', [exAsset ''m'' 10]),
         (''m_e2'', [(exAsset ''e2'' 10)\<lparr>a_env := exEnv ''electron-renderer'' False\<rparr>]),
         (''m_e1'', [exAsset ''e1'' 10]),
         (''e2_s'', [exAsset ''s'' 30000]), (''e1_s'', [exAsset ''s'' 30000]),
         (''e1_t'', [exAsset ''t'' 5]), (''s_t'', [exAsset ''t'' 5])]\<rparr>"

definition sharedSecond :: Bundle where
  "sharedSecond = exBundle False ((exAsset ''e2'' 10)\<lparr>a_env := exEnv ''electron-renderer'' False\<rparr>)"

definition sharedFirst :: Bundle where
  "sharedFirst = (exBundle False (exAsset ''e1'' 10))\<lparr>b_target := ''dist/legacy''\<rparr>"

definition sharedGraph :: BundleGraph where
  "sharedGraph =
     \<lparr>bg_bundles = [exBundle True (exAsset ''m'' 10), sharedSecond, sharedFirst],
      bg_groups =
        [(exGroup (exDep ''d0'' True False), [exBundle True (exAsset ''m'' 10)]),
         (exGroup (exDep ''m_e2'' False True), [sharedSecond]),
         (exGroup (exDep ''m_e1'' False True), [sharedFirst])],
      bg_roots = [(''m'', ''m''), (''e2'', ''e2''), (''e1'', ''e1'')],
      bg_contains =
        [(''m'', ''m''), (''e2'', ''e2''), (''e2'', ''s''), (''e2'', ''t''),
         (''e1'', ''e1''), (''e1'', ''s''), (''e1'', ''t'')],
      bg_bundleReferences = [],
      bg_assetReferences = [],
      bg_internalized = []\<rparr>"

text \<open>The candidate that the traversal of pass 4 collects in this graph.\<close>

definition sharedCandidate :: Candidate where
  "sharedCandidate =
     \<lparr>c_assets = [exAsset ''s'' 30000, exAsset ''t'' 5],
      c_sourceBundles = [sharedSecond, sharedFirst],
      c_size = 30010\<rparr>"

text \<open>The bundle that \<^verbatim>\<open>createBundle\<close> makes of \<open>entryBundleOpts\<close>.\<close>

definition entryBundleOf :: "(Asset \<Rightarrow> bool) \<Rightarrow> Dependency \<Rightarrow> BundleGroup \<Rightarrow> Asset \<Rightarrow> Bundle" where
  "entryBundleOf splittable dependency bundleGroup asset =
     \<lparr>b_id = a_id asset, b_type = a_type asset, b_env = a_env asset,
      b_target = g_target bundleGroup,
      b_isEntry = (if a_isIsolated asset then False else d_isEntry dependency),
      b_isInline = a_isInline asset,
      b_isSplittable = splittable asset,
      b_mainEntry = Some asset\<rparr>"

text \<open>The state of \<^verbatim>\<open>bundle\<close> before the traversal, and the context on an asset of a group.\<close>

definition emptyBundlerState :: BundlerState where
  "emptyBundlerState =
     \<lparr>bs_graph =
        \<lparr>bg_bundles = [], bg_groups = [], bg_roots = [], bg_contains = [],
         bg_bundleReferences = [], bg_assetReferences = [], bg_internalized = []\<rparr>,
      bs_bundleRoots = [], bs_bundlesByEntryAsset = [], bs_siblingBundlesByAsset = [],
      bs_arrays = [], bs_maps = []\<rparr>"

definition exBundlerState :: BundlerState where
  "exBundlerState =
     \<lparr>bs_graph =
        \<lparr>bg_bundles = [exBundle True (exAsset ''m'' 10)],
         bg_groups = [(exGroup (exDep ''d0'' True False), [exBundle True (exAsset ''m'' 10)])],
         bg_roots = [], bg_contains = [],
         bg_bundleReferences = [], bg_assetReferences = [], bg_internalized = []\<rparr>,
      bs_bundleRoots = [(exBundle True (exAsset ''m'' 10), [exAsset ''m'' 10])],
      bs_bundlesByEntryAsset = [(exAsset ''m'' 10, exBundle True (exAsset ''m'' 10))],
      bs_siblingBundlesByAsset = [(''m'', 0)],
      bs_arrays = [[]],
      bs_maps = [[(''js'', exBundle True (exAsset ''m'' 10))]]\<rparr>"

definition exCtx :: Ctx where
  "exCtx =
     \<lparr>ctx_bundleGroup = Some (exGroup (exDep ''d0'' True False)),
      ctx_bundleByType = Some 0,
      ctx_bundleGroupDependency = Some (exDep ''d0'' True False),
      ctx_parentNode = AssetNode (exAsset ''m'' 10),
      ctx_parentBundle = Some (exBundle True (exAsset ''m'' 10))\<rparr>"

text \<open>A page \<open>m\<close> that imports \<open>u\<close> statically and \<open>v\<close> dynamically.\<close>

definition pageAssets :: AssetGraph where
  "pageAssets =
     \<lparr>ag_entries = [exDep ''d0'' True False],
      ag_dependencies = [(''m'', [exDep ''m_u'' False False, exDep ''m_v'' False True])],
      ag_resolved =
        [(''d0'', [exAsset ''m'' 10]), (''m_u'', [exAsset ''u'' 10]),
         (''m_v'', [exAsset ''v'' 10])]\<rparr>"



text \<open>
  A page \<open>a\<close> that imports \<open>b\<close> statically and dynamically: the page's bundle contains \<open>b\<close>, and
  the dynamic import has a bundle group of its own with the bundle of \<open>b\<close>.
\<close>

definition internAssets :: AssetGraph where
  "internAssets =
     \<lparr>ag_entries = [exDep ''d0'' True False],
      ag_dependencies = [(''a'', [exDep ''a_b'' False False, exDep ''a_b_async'' False True])],
      ag_resolved =
        [(''d0'', [exAsset ''a'' 10]), (''a_b'', [exAsset ''b'' 10]),
         (''a_b_async'', [exAsset ''b'' 10])]\<rparr>"

definition internPage :: Bundle where
  "internPage = exBundle True (exAsset ''a'' 10)"

definition internGroup :: BundleGroup where
  "internGroup = exGroup (exDep ''a_b_async'' False True)"

definition internGraph :: BundleGraph where
  "internGraph =
     \<lparr>bg_bundles = [internPage, exBundle False (exAsset ''b'' 10)],
      bg_groups =
        [(exGroup (exDep ''d0'' True False), [internPage]),
         (internGroup, [exBundle False (exAsset ''b'' 10)])],
      bg_roots = [(''a'', ''a''), (''b'', ''b'')],
      bg_contains = [(''a'', ''a''), (''a'', ''b''), (''b'', ''b'')],
      bg_bundleReferences = [],
      bg_assetReferences = [],
      bg_internalized = []\<rparr>"

text \<open>
  A page \<open>m\<close> with four dynamic imports: \<open>e1\<close> and \<open>e2\<close> import \<open>s\<close>, \<open>e3\<close> and \<open>e4\<close> import \<open>s2\<close>,
  and both \<open>s\<close> and \<open>s2\<close> import the large \<open>t\<close>.
\<close>

definition nestedAssets :: AssetGraph where
  "nestedAssets =
     \<lparr>ag_entries = [exDep ''d0'' True False],
      ag_dependencies =
        [(''m'', [exDep ''m_e1'' False True, exDep ''m_e2'' False True,
                  exDep ''m_e3'' False True, exDep ''m_e4'' False True]),
         (''e1'', [exDep ''e1_s'' False False]), (''e2'', [exDep ''e2_s'' False False]),
         (''e3'', [exDep ''e3_s2'' False False]), (''e4'', [exDep ''e4_s2'' False False]),
         (''s'', [exDep ''s_t'' False False]), (''s2'', [exDep ''s2_t'' False False])],
      ag_resolved =
        [(''d0'', [exAsset ''m'' 1]),
         (''m_e1'', [exAsset ''e1'' 1]), (''m_e2'', [exAsset ''e2'' 1]),
         (''m_e3'', [exAsset ''e3'' 1]), (''m_e4'', [exAsset ''e4'' 1]),
         (''e1_s'', [exAsset ''s'' 1]), (''e2_s'', [exAsset ''s'' 1]),
         (''e3_s2'', [exAsset ''s2'' 1]), (''e4_s2'', [exAsset ''s2'' 1]),
         (''s_t'', [exAsset ''t'' 30000]), (''s2_t'', [exAsset ''t'' 30000])]\<rparr>"

definition nestedGraph :: BundleGraph where
  "nestedGraph =
     \<lparr>bg_bundles =
        [exBundle True (exAsset ''m'' 1), exBundle False (exAsset ''e1'' 1),
         exBundle False (exAsset ''e2'' 1), exBundle False (exAsset ''e3'' 1),
         exBundle False (exAsset ''e4'' 1)],
      bg_groups =
        [(exGroup (exDep ''d0'' True False), [exBundle True (exAsset ''m'' 1)]),
         (exGroup (exDep ''m_e1'' False True), [exBundle False (exAsset ''e1'' 1)]),
         (exGroup (exDep ''m_e2'' False True), [exBundle False (exAsset ''e2'' 1)]),
         (exGroup (exDep ''m_e3'' False True), [exBundle False (exAsset ''e3'' 1)]),
         (exGroup (exDep ''m_e4'' False True), [exBundle False (exAsset ''e4'' 1)])],
      bg_roots =
        [(''m'', ''m''), (''e1'', ''e1''), (''e2'', ''e2''), (''e3'', ''e3''), (''e4'', ''e4'')],
      bg_contains =
        [(''m'', ''m''), (''e1'', ''e1''), (''e1'', ''s''), (''e1'', ''t''),
         (''e2'', ''e2''), (''e2'', ''s''), (''e2'', ''t''),
         (''e3'', ''e3''), (''e3'', ''s2''), (''e3'', ''t''),
         (''e4'', ''e4''), (''e4'', ''s2''), (''e4'', ''t'')],
      bg_bundleReferences = [],
      bg_assetReferences = [],
      bg_internalized = []\<rparr>"

text \<open>
  The conditions under which a run of \<^verbatim>\<open>optimize\<close> finds nothing to do in a bundle graph. Step 2:
  every candidate of every bundle is in a bundle group without room.
\<close>

definition lacksRoom :: "BundleGraph \<Rightarrow> Bundle \<Rightarrow> bool" where
  "lacksRoom bg candidate =
     (\<not> list_all (hasRoom bg) (getBundleGroupsContainingBundle bg candidate))"

definition nothingToReparent :: "BundleGraph \<Rightarrow> Bundle \<Rightarrow> bool" where
  "nothingToReparent bg b =
     (b_isInline b \<or> \<not> b_isSplittable b \<or>
      (case getMainEntry b of
         None \<Rightarrow> True
       | Some mainEntry \<Rightarrow> list_all (lacksRoom bg) (reparentCandidates bg b mainEntry)))"

text \<open>Step 3: no asset of a splittable bundle outside isolation is in an ancestor bundle too.\<close>

definition notDuplicated :: "BundleGraph \<Rightarrow> Bundle \<Rightarrow> Asset \<Rightarrow> bool" where
  "notDuplicated bg b asset = (\<not> (hasAsset bg b asset \<and> isAssetInAncestorBundles bg b asset))"

definition nothingToDeduplicate :: "AssetGraph \<Rightarrow> BundleGraph \<Rightarrow> Bundle \<Rightarrow> bool" where
  "nothingToDeduplicate ag bg b =
     (isIsolated (b_env b) \<or> \<not> b_isSplittable b \<or>
      list_all (notDuplicated bg b) (concat (map snd (ag_resolved ag))))"

text \<open>Step 4: every candidate that meets the size threshold touches a full bundle group.\<close>

definition blocked :: "BundleGraph \<Rightarrow> Candidate \<Rightarrow> bool" where
  "blocked bg cand = list_ex (isFull bg) (candidateBundleGroups bg (c_sourceBundles cand))"

definition nothingToShare :: "AssetGraph \<Rightarrow> BundleGraph \<Rightarrow> bool" where
  "nothingToShare ag bg = list_all (blocked bg) (sortedCandidates (collectCandidates ag bg))"

text \<open>
  Step 5: every async dependency with a resolution has its bundle group, the group has a parent
  bundle, and the dependency is internalized already in the bundles where the resolution is
  available.
\<close>

definition internalizedWhereAvailable ::
  "BundleGraph \<Rightarrow> Dependency \<Rightarrow> Asset \<Rightarrow> Bundle \<Rightarrow> bool" where
  "internalizedWhereAvailable bg dependency resolution b =
     (isInternalized bg dependency b \<or>
      \<not> (hasAsset bg b resolution \<or> isAssetInAncestorBundles bg b resolution))"

definition settledDependency :: "AssetGraph \<Rightarrow> BundleGraph \<Rightarrow> Dependency \<Rightarrow> bool" where
  "settledDependency ag bg dependency =
     (d_isEntry dependency \<or> \<not> d_isAsync dependency \<or>
      (case getDependencyResolution ag dependency of
         None \<Rightarrow> True
       | Some resolution \<Rightarrow>
           (case resolveExternalDependency bg dependency of
              Some (ExtBundleGroup bundleGroup) \<Rightarrow>
                getParentBundlesOfBundleGroup ag bg bundleGroup \<noteq> [] \<and>
                list_all (internalizedWhereAvailable bg dependency resolution)
                  (findBundlesWithDependency ag bg dependency)
            | _ \<Rightarrow> False)))"

definition nothingToInternalize :: "AssetGraph \<Rightarrow> BundleGraph \<Rightarrow> bool" where
  "nothingToInternalize ag bg =
     list_all (settledDependency ag bg) (ag_entries ag @ concat (map snd (ag_dependencies ag)))"

definition settled :: "AssetGraph \<Rightarrow> BundleGraph \<Rightarrow> bool" where
  "settled ag bg =
     (list_all (nothingToReparent bg) (bg_bundles bg) \<and>
      list_all (nothingToDeduplicate ag bg) (bg_bundles bg) \<and>
      nothingToShare ag bg \<and>
      nothingToInternalize ag bg)"

section \<open>Lemmas on the traversal and on the mutations\<close>

declare dfs.simps [simp del]

text \<open>A property of the state that every visit keeps holds after the traversal.\<close>

lemma dfs_preserves:
  assumes "\<And>n s. P s \<Longrightarrow> P (fst (visit n s))" and "P s"
  shows "P (fst (dfs children universe visit stack visited s))"
  using assms
proof (induction children universe visit stack visited s rule: dfs.induct)
  case (1 children universe visit visited s)
  then show ?case by (simp add: dfs.simps)
next
  case (2 children universe visit n stack visited s)
  show ?case
  proof (cases "n \<in> set visited \<or> n \<notin> set universe")
    case True
    then have "P (fst (dfs children universe visit stack visited s))"
      using "2.prems" by (intro "2.IH"(1)) auto
    with True show ?thesis by (simp add: dfs.simps)
  next
    case False
    have "P (fst (visit n s))" using "2.prems" by blast
    with False have "P (fst (dfs children universe visit
        ((if snd (visit n s) then [] else children (fst (visit n s)) n) @ stack)
        (n # visited) (fst (visit n s))))"
      using "2.prems"(1) by (intro "2.IH"(2)) auto
    with False show ?thesis by (simp add: dfs.simps)
  qed
qed

text \<open>
  An invariant of the stack, the visited nodes and the state that skipping a visited node and
  visiting a new node keep holds when the traversal ends, with the empty stack.
\<close>

lemma dfs_invariant:
  assumes "I stack visited s"
    and "\<And>n stack visited s.
           I (n # stack) visited s \<Longrightarrow> n \<in> set visited \<or> n \<notin> set universe \<Longrightarrow> I stack visited s"
    and "\<And>n stack visited s.
           I (n # stack) visited s \<Longrightarrow> n \<notin> set visited \<Longrightarrow> n \<in> set universe \<Longrightarrow>
           I ((if snd (visit n s) then [] else children (fst (visit n s)) n) @ stack)
             (n # visited) (fst (visit n s))"
  shows "I [] (snd (dfs children universe visit stack visited s))
           (fst (dfs children universe visit stack visited s))"
  using assms
proof (induction children universe visit stack visited s rule: dfs.induct)
  case (1 children universe visit visited s)
  then show ?case by (simp add: dfs.simps)
next
  case (2 children universe visit n stack visited s)
  show ?case
  proof (cases "n \<in> set visited \<or> n \<notin> set universe")
    case True
    have "I stack visited s"
      using "2.prems"(1) True by (rule "2.prems"(2))
    then have "I [] (snd (dfs children universe visit stack visited s))
        (fst (dfs children universe visit stack visited s))"
      using True "2.prems"(2,3) by (intro "2.IH"(1)) blast+
    with True show ?thesis by (simp add: dfs.simps)
  next
    case False
    let ?stack = "(if snd (visit n s) then [] else children (fst (visit n s)) n) @ stack"
    have "I ?stack (n # visited) (fst (visit n s))"
      using "2.prems"(1) False by (intro "2.prems"(3)) auto
    then have "I [] (snd (dfs children universe visit ?stack (n # visited) (fst (visit n s))))
        (fst (dfs children universe visit ?stack (n # visited) (fst (visit n s))))"
      using False "2.prems"(2,3) by (intro "2.IH"(2)) blast+
    with False show ?thesis by (simp add: dfs.simps)
  qed
qed

lemma fold_preserves:
  assumes "\<And>x s. x \<in> set xs \<Longrightarrow> P s \<Longrightarrow> P (f x s)" and "P s"
  shows "P (fold f xs s)"
  using assms by (induction xs arbitrary: s) auto

text \<open>Removing an asset graph from one bundle leaves the contents of the other bundles.\<close>

lemma removeAssetGraphFromBundle_other:
  assumes "b_id b' \<noteq> b_id b"
  shows "bundleContents (removeAssetGraphFromBundle ag a b' bg) b = bundleContents bg b"
proof -
  have "filter (\<lambda>e. fst e = b_id b) (filter (keepsEdge (b_id b') r) es)
        = filter (\<lambda>e. fst e = b_id b) es" for r es
    using assms by (induction es) (auto simp: keepsEdge_def)
  then show ?thesis
    by (simp add: bundleContents_def removeAssetGraphFromBundle_def)
qed

lemma deduplicateAsset_other:
  assumes "b_id b' \<noteq> b_id b"
  shows "bundleContents (deduplicateAsset ag b' a bg) b = bundleContents bg b"
  using assms by (simp add: deduplicateAsset_def removeAssetGraphFromBundle_other)

lemma deduplicateVisit_other:
  assumes "b_id b' \<noteq> b_id b"
  shows "bundleContents (deduplicateVisit ag b' n bg) b = bundleContents bg b"
proof (cases n)
  case (AssetNode a)
  then show ?thesis by (simp add: deduplicateVisit_def)
next
  case (DependencyNode d)
  have "bundleContents (fold (deduplicateAsset ag b') xs bg) b = bundleContents bg b" for xs
    by (rule fold_preserves [where P = "\<lambda>g. bundleContents g b = bundleContents bg b"])
       (simp_all add: deduplicateAsset_other [OF assms])
  with DependencyNode show ?thesis by (simp add: deduplicateVisit_def)
qed

lemma deduplicateBundle_other:
  assumes "b_id b' \<noteq> b_id b"
  shows "bundleContents (deduplicateBundle ag b' bg) b = bundleContents bg b"
proof -
  have "bundleContents (bundleTraverse ag b' (deduplicateVisit ag b') bg) b = bundleContents bg b"
    unfolding bundleTraverse_def
    by (rule dfs_preserves [where P = "\<lambda>g. bundleContents g b = bundleContents bg b"])
       (simp_all add: plainVisit_def deduplicateVisit_other [OF assms])
  then show ?thesis by (simp add: deduplicateBundle_def)
qed

lemma deduplicateBundle_skip:
  assumes "isIsolated (b_env b) \<or> \<not> b_isSplittable b"
  shows "deduplicateBundle ag b bg = bg"
  using assms by (auto simp: deduplicateBundle_def)

text \<open>The bundles of a bundle group under the mutations.\<close>

lemma getBundles_absent:
  "g \<notin> set (map fst (bg_groups bg)) \<Longrightarrow> getBundlesInBundleGroup bg g = []"
proof -
  assume "g \<notin> set (map fst (bg_groups bg))"
  then have "map_of (bg_groups bg) g = None"
    by (simp add: map_of_eq_None_iff)
  then show ?thesis by (simp add: getBundlesInBundleGroup_def)
qed

lemma withinLimit_iff:
  "withinLimit bg = (\<forall>g. length (getBundlesInBundleGroup bg g) \<le> maxParallelRequests)"
proof
  assume w: "withinLimit bg"
  show "\<forall>g. length (getBundlesInBundleGroup bg g) \<le> maxParallelRequests"
  proof
    fix g
    show "length (getBundlesInBundleGroup bg g) \<le> maxParallelRequests"
    proof (cases "g \<in> set (map fst (bg_groups bg))")
      case True
      with w show ?thesis by (auto simp: withinLimit_def list_all_iff)
    next
      case False
      then show ?thesis by (simp add: getBundles_absent)
    qed
  qed
next
  assume "\<forall>g. length (getBundlesInBundleGroup bg g) \<le> maxParallelRequests"
  then show "withinLimit bg" by (simp add: withinLimit_def list_all_iff)
qed

lemma map_of_addMember:
  "map_of (map (addMember b g) xs) k =
     (if k = g then map_option (setAdd b) (map_of xs k) else map_of xs k)"
  by (induction xs) (auto simp: addMember_def)

lemma keys_addBundleToBundleGroup:
  "map fst (bg_groups (addBundleToBundleGroup b g bg)) = map fst (bg_groups bg)"
  by (simp add: addBundleToBundleGroup_def addMember_def comp_def)

lemma getBundles_addBundleToBundleGroup:
  "getBundlesInBundleGroup (addBundleToBundleGroup b g bg) k =
     (if k = g \<and> k \<in> set (map fst (bg_groups bg))
      then setAdd b (getBundlesInBundleGroup bg k)
      else getBundlesInBundleGroup bg k)"
proof (cases "k = g \<and> k \<in> set (map fst (bg_groups bg))")
  case True
  then obtain ms where "map_of (bg_groups bg) g = Some ms"
    by (cases "map_of (bg_groups bg) g") (auto simp: map_of_eq_None_iff)
  with True show ?thesis
    by (auto simp: getBundlesInBundleGroup_def addBundleToBundleGroup_def map_of_addMember)
next
  case False
  then consider "k \<noteq> g" | "k = g" "map_of (bg_groups bg) g = None"
    by (auto simp: map_of_eq_None_iff)
  then show ?thesis
  proof cases
    case 1
    with False show ?thesis
      by (simp add: getBundlesInBundleGroup_def addBundleToBundleGroup_def map_of_addMember)
  next
    case 2
    with False show ?thesis
      by (simp add: getBundlesInBundleGroup_def addBundleToBundleGroup_def map_of_addMember)
  qed
qed

lemma setAdd_idem: "setAdd x (setAdd x xs) = setAdd x xs"
  by (simp add: setAdd_def)

lemma set_setAdd: "set (setAdd x xs) = insert x (set xs)"
  by (auto simp: setAdd_def)

lemma length_setAdd: "length (setAdd x xs) \<le> Suc (length xs)"
  by (simp add: setAdd_def)

lemma keys_addToGroups:
  "map fst (bg_groups (addToGroups b gs bg)) = map fst (bg_groups bg)"
  unfolding addToGroups_def
  by (induction gs arbitrary: bg) (simp_all add: keys_addBundleToBundleGroup)

lemma getBundles_addToGroups:
  "getBundlesInBundleGroup (addToGroups b gs bg) k =
     (if k \<in> set gs \<and> k \<in> set (map fst (bg_groups bg))
      then setAdd b (getBundlesInBundleGroup bg k)
      else getBundlesInBundleGroup bg k)"
proof (induction gs arbitrary: bg)
  case Nil
  then show ?case by (simp add: addToGroups_def)
next
  case (Cons g gs)
  have unfold: "addToGroups b (g # gs) bg = addToGroups b gs (addBundleToBundleGroup b g bg)"
    by (simp add: addToGroups_def)
  show ?case
    unfolding unfold Cons.IH
    by (auto simp: getBundles_addBundleToBundleGroup keys_addBundleToBundleGroup setAdd_idem)
qed

lemma keys_addBundlesToGroup:
  "map fst (bg_groups (addBundlesToGroup bs g bg)) = map fst (bg_groups bg)"
  unfolding addBundlesToGroup_def
  by (induction bs arbitrary: bg) (simp_all add: keys_addBundleToBundleGroup)

lemma set_getBundles_addBundlesToGroup:
  "set (getBundlesInBundleGroup (addBundlesToGroup bs g bg) k) =
     (if k = g \<and> k \<in> set (map fst (bg_groups bg))
      then set (getBundlesInBundleGroup bg k) \<union> set bs
      else set (getBundlesInBundleGroup bg k))"
proof (induction bs arbitrary: bg)
  case Nil
  then show ?case by (simp add: addBundlesToGroup_def)
next
  case (Cons b bs)
  have unfold: "addBundlesToGroup (b # bs) g bg = addBundlesToGroup bs g (addBundleToBundleGroup b g bg)"
    by (simp add: addBundlesToGroup_def)
  show ?case
    unfolding unfold Cons.IH
    by (auto simp: getBundles_addBundleToBundleGroup keys_addBundleToBundleGroup set_setAdd)
qed

lemma keys_addBundlesToGroups:
  "map fst (bg_groups (addBundlesToGroups bs gs bg)) = map fst (bg_groups bg)"
  unfolding addBundlesToGroups_def
  by (induction gs arbitrary: bg) (simp_all add: keys_addBundlesToGroup)

lemma set_getBundles_addBundlesToGroups:
  "set (getBundlesInBundleGroup (addBundlesToGroups bs gs bg) k) =
     (if k \<in> set gs \<and> k \<in> set (map fst (bg_groups bg))
      then set (getBundlesInBundleGroup bg k) \<union> set bs
      else set (getBundlesInBundleGroup bg k))"
proof (induction gs arbitrary: bg)
  case Nil
  then show ?case by (simp add: addBundlesToGroups_def)
next
  case (Cons g gs)
  have unfold: "addBundlesToGroups bs (g # gs) bg = addBundlesToGroups bs gs (addBundlesToGroup bs g bg)"
    by (simp add: addBundlesToGroups_def)
  show ?case
    unfolding unfold Cons.IH
    by (auto simp: set_getBundles_addBundlesToGroup keys_addBundlesToGroup)
qed

lemma getBundles_removeAssetGraphFromBundle:
  "getBundlesInBundleGroup (removeAssetGraphFromBundle ag a b bg) k = getBundlesInBundleGroup bg k"
  by (simp add: getBundlesInBundleGroup_def removeAssetGraphFromBundle_def)

lemma containing_groups_present:
  "set (getBundleGroupsContainingBundle bg b) \<subseteq> set (map fst (bg_groups bg))"
  by (auto simp: getBundleGroupsContainingBundle_def)

text \<open>Which mutations leave the bundle groups alone.\<close>

lemma groups_removeAssetGraphFromBundle:
  "bg_groups (removeAssetGraphFromBundle ag a b bg) = bg_groups bg"
  by (simp add: removeAssetGraphFromBundle_def)

lemma groups_addAssetGraphToBundle:
  "bg_groups (addAssetGraphToBundle ag a b bg) = bg_groups bg"
  by (simp add: addAssetGraphToBundle_def)

lemma groups_internalizeAsyncDependency:
  "bg_groups (internalizeAsyncDependency b d bg) = bg_groups bg"
  by (simp add: internalizeAsyncDependency_def)

lemma groups_deduplicateBundle:
  "bg_groups (deduplicateBundle ag b bg) = bg_groups bg"
proof -
  have asset: "bg_groups (deduplicateAsset ag b a g) = bg_groups g" for a g
    by (simp add: deduplicateAsset_def groups_removeAssetGraphFromBundle)
  have visit: "bg_groups (deduplicateVisit ag b n g) = bg_groups g" for n g
  proof (cases n)
    case (AssetNode a)
    then show ?thesis by (simp add: deduplicateVisit_def)
  next
    case (DependencyNode d)
    have "bg_groups (fold (deduplicateAsset ag b) xs g) = bg_groups g" for xs
      by (rule fold_preserves [where P = "\<lambda>h. bg_groups h = bg_groups g"])
         (simp_all add: asset)
    with DependencyNode show ?thesis by (simp add: deduplicateVisit_def)
  qed
  have "bg_groups (bundleTraverse ag b (deduplicateVisit ag b) bg) = bg_groups bg"
    unfolding bundleTraverse_def
    by (rule dfs_preserves [where P = "\<lambda>h. bg_groups h = bg_groups bg"])
       (simp_all add: plainVisit_def visit)
  then show ?thesis by (simp add: deduplicateBundle_def)
qed

lemma getBundles_cong:
  "bg_groups g = bg_groups h \<Longrightarrow> getBundlesInBundleGroup g k = getBundlesInBundleGroup h k"
  by (simp add: getBundlesInBundleGroup_def)

lemma withinLimit_cong:
  "bg_groups g = bg_groups h \<Longrightarrow> withinLimit g = withinLimit h"
  by (simp add: withinLimit_iff getBundlesInBundleGroup_def)

lemma groups_pass3: "bg_groups (pass3 ag bg) = bg_groups bg"
  unfolding pass3_def traverseBundles_def
  by (rule fold_preserves [where P = "\<lambda>h. bg_groups h = bg_groups bg"])
     (simp_all add: groups_deduplicateBundle)

text \<open>Creating a bundle keeps the size of every bundle group.\<close>

lemma map_of_replaceMember:
  "map_of (map (replaceMember b) xs) k = map_option (map (replaceBundle b)) (map_of xs k)"
  by (induction xs) (auto simp: replaceMember_def)

lemma length_getBundles_registerBundle:
  "length (getBundlesInBundleGroup (registerBundle b bg) k) = length (getBundlesInBundleGroup bg k)"
  by (cases "map_of (bg_groups bg) k")
     (simp_all add: registerBundle_def getBundlesInBundleGroup_def map_of_replaceMember)

lemma keys_registerBundle:
  "map fst (bg_groups (registerBundle b bg)) = map fst (bg_groups bg)"
  by (simp add: registerBundle_def replaceMember_def comp_def)

lemma createBundle_registers:
  "createBundle splittable opts bg = Inr created \<Longrightarrow> snd created = registerBundle (fst created) bg"
  by (auto simp: createBundle_def Let_def split: option.splits)

text \<open>One step of pass 4 keeps the limit: the shared bundle goes to groups that are not full.\<close>

lemma groups_moveAsset:
  "bg_groups (moveAsset ag sharedBundle sourceBundles a bg) = bg_groups bg"
proof -
  have "bg_groups (fold (removeAssetGraphFromBundle ag a) sourceBundles g) = bg_groups g" for g
    by (rule fold_preserves [where P = "\<lambda>h. bg_groups h = bg_groups g"])
       (simp_all add: groups_removeAssetGraphFromBundle)
  then show ?thesis by (simp add: moveAsset_def groups_addAssetGraphToBundle)
qed

lemma groups_fold_moveAsset:
  "bg_groups (fold (moveAsset ag sharedBundle sourceBundles) as bg) = bg_groups bg"
  by (rule fold_preserves [where P = "\<lambda>h. bg_groups h = bg_groups bg"])
     (simp_all add: groups_moveAsset)

lemma getBundles_fillSharedBundle:
  "getBundlesInBundleGroup (fillSharedBundle ag cand gs sharedBundle bg) k =
     (if k \<in> set gs \<and> k \<in> set (map fst (bg_groups bg))
      then setAdd sharedBundle (getBundlesInBundleGroup bg k)
      else getBundlesInBundleGroup bg k)"
proof -
  let ?moved = "fold (moveAsset ag sharedBundle (c_sourceBundles cand)) (c_assets cand) bg"
  have moved: "bg_groups ?moved = bg_groups bg"
    by (rule groups_fold_moveAsset)
  have "getBundlesInBundleGroup (fillSharedBundle ag cand gs sharedBundle bg) k =
        getBundlesInBundleGroup (addToGroups sharedBundle gs ?moved) k"
    unfolding fillSharedBundle_def by (rule getBundles_cong) (rule groups_deduplicateBundle)
  also have "\<dots> = (if k \<in> set gs \<and> k \<in> set (map fst (bg_groups ?moved))
      then setAdd sharedBundle (getBundlesInBundleGroup ?moved k)
      else getBundlesInBundleGroup ?moved k)"
    by (rule getBundles_addToGroups)
  also have "\<dots> = (if k \<in> set gs \<and> k \<in> set (map fst (bg_groups bg))
      then setAdd sharedBundle (getBundlesInBundleGroup bg k)
      else getBundlesInBundleGroup bg k)"
    using moved getBundles_cong [OF moved] by simp
  finally show ?thesis .
qed

lemma extractSharedBundle_withinLimit:
  assumes limit: "withinLimit bg"
    and run: "extractSharedBundle md5FromString ag cand bg = Inr bg'"
  shows "withinLimit bg'"
proof (cases "list_ex (isFull bg) (candidateBundleGroups bg (c_sourceBundles cand))")
  case True
  with run have "bg' = bg" by (simp add: extractSharedBundle_def)
  with limit show ?thesis by simp
next
  case False
  let ?gs = "candidateBundleGroups bg (c_sourceBundles cand)"
  from False run obtain firstBundle rest created where
    src: "c_sourceBundles cand = firstBundle # rest" and
    created: "createBundle (\<lambda>_. False)
        (sharedBundleOpts md5FromString (c_sourceBundles cand) firstBundle) bg = Inr created" and
    bg': "bg' = fillSharedBundle ag cand ?gs (fst created) (snd created)"
    by (auto simp: extractSharedBundle_def split: list.splits sum.splits)
  have reg: "snd created = registerBundle (fst created) bg"
    using created by (rule createBundle_registers)
  have notfull: "length (getBundlesInBundleGroup bg k) < maxParallelRequests" if "k \<in> set ?gs" for k
    using False that by (auto simp: list_ex_iff isFull_def)
  have "length (getBundlesInBundleGroup bg' k) \<le> maxParallelRequests" for k
  proof (cases "k \<in> set ?gs \<and> k \<in> set (map fst (bg_groups (snd created)))")
    case True
    then have "getBundlesInBundleGroup bg' k =
        setAdd (fst created) (getBundlesInBundleGroup (snd created) k)"
      unfolding bg' getBundles_fillSharedBundle by simp
    then have "length (getBundlesInBundleGroup bg' k)
        \<le> Suc (length (getBundlesInBundleGroup (snd created) k))"
      by (simp add: length_setAdd)
    also have "\<dots> = Suc (length (getBundlesInBundleGroup bg k))"
      by (simp add: reg length_getBundles_registerBundle)
    also have "\<dots> \<le> maxParallelRequests"
      using notfull True by (simp add: Suc_le_eq)
    finally show ?thesis .
  next
    case False
    then have "getBundlesInBundleGroup bg' k = getBundlesInBundleGroup (snd created) k"
      unfolding bg' getBundles_fillSharedBundle by auto
    then have "length (getBundlesInBundleGroup bg' k) = length (getBundlesInBundleGroup bg k)"
      by (simp add: reg length_getBundles_registerBundle)
    with limit show ?thesis by (simp add: withinLimit_iff)
  qed
  then show ?thesis by (simp add: withinLimit_iff)
qed

lemma forEach_preserves:
  assumes "\<And>x s s'. P s \<Longrightarrow> body x s = Inr s' \<Longrightarrow> P s'"
    and "P s" and "forEach body xs s = Inr s'"
  shows "P s'"
  using assms(2,3)
proof (induction xs arbitrary: s)
  case Nil
  then show ?case by simp
next
  case (Cons x xs)
  from Cons.prems(2) obtain t where t: "body x s = Inr t" and rest: "forEach body xs t = Inr s'"
    by (auto split: sum.splits)
  from Cons.prems(1) t have "P t" by (rule assms(1))
  then show ?case using rest by (rule Cons.IH)
qed

lemma pass4_withinLimit:
  assumes "withinLimit bg" and "pass4 md5FromString ag bg = Inr bg'"
  shows "withinLimit bg'"
  using assms(2) unfolding pass4_def
  by (rule forEach_preserves [where P = withinLimit, rotated 2])
     (auto intro: extractSharedBundle_withinLimit assms(1))

text \<open>Pass 5 adds no bundle to any bundle group.\<close>

lemma map_of_remove_key:
  "map_of (filter (\<lambda>gm. fst gm \<noteq> g) xs) k = (if k = g then None else map_of xs k)"
  by (induction xs) auto

lemma getBundles_removeBundleGroup:
  "getBundlesInBundleGroup (removeBundleGroup g bg) k =
     (if k = g then [] else getBundlesInBundleGroup bg k)"
  by (simp add: removeBundleGroup_def getBundlesInBundleGroup_def map_of_remove_key)

lemma removeOrphans_withinLimit:
  assumes "withinLimit bg"
  shows "withinLimit (removeOrphans ag gs bg)"
  unfolding removeOrphans_def
proof (rule fold_preserves [where P = withinLimit])
  fix g h
  assume "withinLimit h"
  then show "withinLimit (removeIfOrphan ag g h)"
    by (simp add: removeIfOrphan_def withinLimit_iff getBundles_removeBundleGroup)
qed (rule assms)

lemma groups_internalizeIn:
  "bg_groups (internalizeIn d r b bg) = bg_groups bg"
  by (simp add: internalizeIn_def groups_internalizeAsyncDependency)

lemma groups_internalizeDependency:
  assumes "internalizeDependency ag d bg gs = Inr s"
  shows "bg_groups (fst s) = bg_groups bg"
proof -
  have "bg_groups (fold (internalizeIn d r) bs bg) = bg_groups bg" for r bs
    by (rule fold_preserves [where P = "\<lambda>h. bg_groups h = bg_groups bg"])
       (simp_all add: groups_internalizeIn)
  with assms show ?thesis
    by (auto simp: internalizeDependency_def
             split: option.splits ExternalResolution.splits)
qed

lemma internalizeVisit_sameGroups:
  assumes "sameGroups bg st"
  shows "sameGroups bg (fst (internalizeVisit ag n st))"
proof (cases st)
  case (Inl e)
  then show ?thesis by (simp add: internalizeVisit_def sameGroups_def)
next
  case (Inr s)
  show ?thesis
  proof (cases n)
    case (AssetNode a)
    with Inr assms show ?thesis by (simp add: internalizeVisit_def)
  next
    case (DependencyNode d)
    show ?thesis
    proof (cases "d_isEntry d \<or> \<not> d_isAsync d")
      case True
      with Inr DependencyNode assms show ?thesis by (simp add: internalizeVisit_def)
    next
      case False
      have "sameGroups bg (internalizeDependency ag d (fst s) (snd s))"
      proof (cases "internalizeDependency ag d (fst s) (snd s)")
        case (Inl e)
        then show ?thesis by (simp add: sameGroups_def)
      next
        case inner: (Inr s')
        from groups_internalizeDependency [OF inner] assms Inr
        show ?thesis by (simp add: sameGroups_def inner)
      qed
      with Inr DependencyNode False show ?thesis by (simp add: internalizeVisit_def)
    qed
  qed
qed

lemma pass5_withinLimit:
  assumes "withinLimit bg" and "pass5 ag bg = Inr bg'"
  shows "withinLimit bg'"
proof -
  have "sameGroups bg (traverse ag (internalizeVisit ag) (Inr (bg, [])))"
    unfolding traverse_def
    by (rule dfs_preserves [where P = "sameGroups bg"])
       (simp_all add: internalizeVisit_sameGroups, simp add: sameGroups_def)
  moreover from assms(2) obtain s where
    s: "traverse ag (internalizeVisit ag) (Inr (bg, [])) = Inr s" and
    bg': "bg' = removeOrphans ag (snd s) (fst s)"
    by (auto simp: pass5_def split: sum.splits)
  ultimately have "bg_groups (fst s) = bg_groups bg"
    by (simp add: sameGroups_def)
  then have "withinLimit (fst s)"
    using assms(1) withinLimit_cong by blast
  then show ?thesis
    unfolding bg' by (rule removeOrphans_withinLimit)
qed

text \<open>Ancestor dedup and the moving of assets change the roots and contents of bundles only.\<close>

lemma sameOutsideContents_refl: "sameOutsideContents g g"
  by (simp add: sameOutsideContents_def)

lemma sameOutsideContents_removeAssetGraphFromBundle:
  "sameOutsideContents g h \<Longrightarrow> sameOutsideContents (removeAssetGraphFromBundle ag a b g) h"
  by (simp add: sameOutsideContents_def removeAssetGraphFromBundle_def)

lemma sameOutsideContents_addAssetGraphToBundle:
  "sameOutsideContents g h \<Longrightarrow> sameOutsideContents (addAssetGraphToBundle ag a b g) h"
  by (simp add: sameOutsideContents_def addAssetGraphToBundle_def)

lemma sameOutsideContents_deduplicateVisit:
  assumes "sameOutsideContents g h"
  shows "sameOutsideContents (deduplicateVisit ag b n g) h"
proof (cases n)
  case (AssetNode a)
  with assms show ?thesis by (simp add: deduplicateVisit_def)
next
  case (DependencyNode d)
  have "sameOutsideContents (fold (deduplicateAsset ag b) xs g) h" for xs
    by (rule fold_preserves [where P = "\<lambda>x. sameOutsideContents x h"])
       (simp_all add: deduplicateAsset_def sameOutsideContents_removeAssetGraphFromBundle assms)
  with DependencyNode show ?thesis by (simp add: deduplicateVisit_def)
qed

lemma sameOutsideContents_deduplicateBundle:
  assumes "sameOutsideContents g h"
  shows "sameOutsideContents (deduplicateBundle ag b g) h"
proof -
  have "sameOutsideContents (bundleTraverse ag b (deduplicateVisit ag b) g) h"
    unfolding bundleTraverse_def
    by (rule dfs_preserves [where P = "\<lambda>x. sameOutsideContents x h"])
       (simp_all add: plainVisit_def sameOutsideContents_deduplicateVisit assms)
  with assms show ?thesis by (simp add: deduplicateBundle_def)
qed

lemma sameOutsideContents_moveAsset:
  assumes "sameOutsideContents g h"
  shows "sameOutsideContents (moveAsset ag sharedBundle sourceBundles a g) h"
  unfolding moveAsset_def
  by (rule fold_preserves [where P = "\<lambda>x. sameOutsideContents x h"])
     (simp_all add: sameOutsideContents_removeAssetGraphFromBundle
        sameOutsideContents_addAssetGraphToBundle assms)

lemma bundles_addToGroups: "bg_bundles (addToGroups b gs bg) = bg_bundles bg"
  unfolding addToGroups_def
  by (rule fold_preserves [where P = "\<lambda>x. bg_bundles x = bg_bundles bg"])
     (simp_all add: addBundleToBundleGroup_def)

lemma bundles_fillSharedBundle:
  "bg_bundles (fillSharedBundle ag cand gs sharedBundle bg) = bg_bundles bg"
proof -
  let ?moved = "fold (moveAsset ag sharedBundle (c_sourceBundles cand)) (c_assets cand) bg"
  have "sameOutsideContents ?moved bg"
    by (rule fold_preserves [where P = "\<lambda>x. sameOutsideContents x bg"])
       (simp_all add: sameOutsideContents_moveAsset sameOutsideContents_refl)
  then have moved: "bg_bundles ?moved = bg_bundles bg"
    by (simp add: sameOutsideContents_def)
  have "sameOutsideContents
      (deduplicateBundle ag sharedBundle (addToGroups sharedBundle gs ?moved))
      (addToGroups sharedBundle gs ?moved)"
    by (rule sameOutsideContents_deduplicateBundle) (rule sameOutsideContents_refl)
  then show ?thesis
    by (simp add: fillSharedBundle_def sameOutsideContents_def bundles_addToGroups moved)
qed

lemma registerBundle_member: "b \<in> set (bg_bundles (registerBundle b bg))"
proof (cases "b_id b \<in> set (map b_id (bg_bundles bg))")
  case True
  then obtain x where "x \<in> set (bg_bundles bg)" and "b_id x = b_id b" by auto
  then have "replaceBundle b x \<in> set (map (replaceBundle b) (bg_bundles bg))"
    by simp
  moreover have "replaceBundle b x = b"
    using \<open>b_id x = b_id b\<close> by (simp add: replaceBundle_def)
  ultimately show ?thesis using True by (simp add: registerBundle_def)
next
  case False
  then show ?thesis by (simp add: registerBundle_def)
qed

text \<open>Sets as lists, maps as association lists, and the sort.\<close>

lemma set_fold_setAdd: "set (fold setAdd xs ys) = set xs \<union> set ys"
  by (induction xs arbitrary: ys) (auto simp: set_setAdd)

lemma distinct_setAdd: "distinct xs \<Longrightarrow> distinct (setAdd x xs)"
  by (simp add: setAdd_def)

lemma distinct_fold_setAdd: "distinct ys \<Longrightarrow> distinct (fold setAdd xs ys)"
  by (induction xs arbitrary: ys) (simp_all add: distinct_setAdd)

lemma length_fold_setAdd: "length ys \<le> length (fold setAdd xs ys)"
proof (induction xs arbitrary: ys)
  case Nil
  then show ?case by simp
next
  case (Cons x xs)
  have "length ys \<le> length (setAdd x ys)" by (simp add: setAdd_def)
  also have "\<dots> \<le> length (fold setAdd xs (setAdd x ys))" by (rule Cons.IH)
  finally show ?case by simp
qed

lemma length_newSet:
  assumes "distinct xs"
  shows "length (newSet xs) = length xs"
proof -
  have "distinct (newSet xs)"
    by (simp add: newSet_def distinct_fold_setAdd)
  then have "length (newSet xs) = card (set (newSet xs))"
    by (simp add: distinct_card)
  also have "\<dots> = card (set xs)"
    by (simp add: newSet_def set_fold_setAdd)
  also have "\<dots> = length xs"
    using assms by (simp add: distinct_card)
  finally show ?thesis .
qed

lemma set_mapSet: "set (mapSet k v m) \<subseteq> insert (k, v) (set m)"
  by (induction m) (auto split: if_splits)

lemma set_sortInsert: "set (sortInsert precedes x xs) = insert x (set xs)"
  by (induction xs) auto

lemma set_jsSort: "set (jsSort precedes xs) = set xs"
  by (induction xs) (simp_all add: jsSort_def set_sortInsert)

text \<open>Every candidate of the map has more than \<^verbatim>\<open>minBundles\<close> proper source bundles.\<close>

lemma bucketAsset_candidateInv:
  assumes cbs: "distinct (containingBundles bg a)"
    and many: "length (containingBundles bg a) > minBundles"
    and found: "case found of None \<Rightarrow> True | Some c \<Rightarrow> candidateInv ag bg c"
  shows "candidateInv ag bg (bucketAsset ag a (containingBundles bg a) found)"
proof (cases found)
  case None
  have "length (newSet (containingBundles bg a)) = length (containingBundles bg a)"
    using cbs by (rule length_newSet)
  moreover have "distinct (newSet (containingBundles bg a))"
    by (simp add: newSet_def distinct_fold_setAdd)
  moreover have "set (newSet (containingBundles bg a)) = set (containingBundles bg a)"
    by (simp add: newSet_def set_fold_setAdd)
  ultimately show ?thesis
    using many None by (simp add: bucketAsset_def candidateInv_def list_all_iff)
next
  case (Some c)
  with found have c: "candidateInv ag bg c" by simp
  let ?new = "bucketAsset ag a (containingBundles bg a) (Some c)"
  have size: "c_size ?new = sum_list (map (getTotalSize ag) (c_assets ?new))"
    using c by (simp add: bucketAsset_def candidateInv_def)
  have "minBundles < length (c_sourceBundles c)"
    using c by (simp add: candidateInv_def)
  also have "\<dots> \<le> length (c_sourceBundles ?new)"
    by (simp add: bucketAsset_def length_fold_setAdd)
  finally have len: "minBundles < length (c_sourceBundles ?new)" .
  have dist: "distinct (c_sourceBundles ?new)"
    using c by (simp add: bucketAsset_def candidateInv_def distinct_fold_setAdd)
  have src: "\<exists>x \<in> set (c_assets ?new). b \<in> set (containingBundles bg x)"
    if "b \<in> set (c_sourceBundles ?new)" for b
  proof -
    from that consider "b \<in> set (containingBundles bg a)" | "b \<in> set (c_sourceBundles c)"
      by (auto simp: bucketAsset_def set_fold_setAdd)
    then show ?thesis
    proof cases
      case 1
      then show ?thesis by (auto simp: bucketAsset_def)
    next
      case 2
      with c obtain x where "x \<in> set (c_assets c)" and "b \<in> set (containingBundles bg x)"
        by (auto simp: candidateInv_def list_all_iff list_ex_iff)
      then show ?thesis by (auto simp: bucketAsset_def)
    qed
  qed
  from size len dist src show ?thesis
    unfolding Some by (simp add: candidateInv_def list_all_iff list_ex_iff)
qed

lemma collectVisit_candidateInv:
  assumes bundles: "distinct (bg_bundles bg)"
    and inv: "\<forall>kc \<in> set m. candidateInv ag bg (snd kc)"
  shows "\<forall>kc \<in> set (fst (collectVisit ag bg n m)). candidateInv ag bg (snd kc)"
proof (cases n)
  case (DependencyNode d)
  with inv show ?thesis by (simp add: collectVisit_def)
next
  case (AssetNode a)
  show ?thesis
  proof (cases "length (containingBundles bg a) > minBundles")
    case False
    with AssetNode inv show ?thesis by (simp add: collectVisit_def)
  next
    case True
    let ?key = "bucketKey (containingBundles bg a)"
    let ?new = "bucketAsset ag a (containingBundles bg a) (map_of m ?key)"
    have "distinct (containingBundles bg a)"
      using bundles by (simp add: containingBundles_def findBundlesWithAsset_def)
    moreover have "case map_of m ?key of None \<Rightarrow> True | Some c \<Rightarrow> candidateInv ag bg c"
    proof (cases "map_of m ?key")
      case None
      then show ?thesis by simp
    next
      case (Some c)
      then have "(?key, c) \<in> set m" by (rule map_of_SomeD)
      with inv Some show ?thesis by auto
    qed
    ultimately have new: "candidateInv ag bg ?new"
      using True by (intro bucketAsset_candidateInv)
    have "fst (collectVisit ag bg n m) = mapSet ?key ?new m"
      using AssetNode True by (simp add: collectVisit_def)
    then have "set (fst (collectVisit ag bg n m)) \<subseteq> insert (?key, ?new) (set m)"
      by (simp add: set_mapSet)
    with new inv show ?thesis by auto
  qed
qed

lemma collectCandidates_candidateInv:
  assumes "distinct (bg_bundles bg)"
  shows "\<forall>kc \<in> set (collectCandidates ag bg). candidateInv ag bg (snd kc)"
  unfolding collectCandidates_def traverseContents_def
  by (rule dfs_preserves [where P = "\<lambda>m. \<forall>kc \<in> set m. candidateInv ag bg (snd kc)"])
     (simp_all add: collectVisit_candidateInv [OF assms])

text \<open>The traversal of pass 4: which nodes it reaches, and which assets it buckets.\<close>

lemma collectVisit_skip: "snd (collectVisit ag bg n m) = skipsChildren bg n"
  by (cases n) (simp_all add: collectVisit_def skipsChildren_def)

lemma collectVisit_assets:
  assumes "kc \<in> set (fst (collectVisit ag bg n m))" and "a \<in> set (c_assets (snd kc))"
  shows "(n = AssetNode a \<and> skipsChildren bg n) \<or> (\<exists>kc' \<in> set m. a \<in> set (c_assets (snd kc')))"
proof (cases n)
  case (DependencyNode d)
  with assms show ?thesis by (auto simp: collectVisit_def)
next
  case (AssetNode x)
  show ?thesis
  proof (cases "length (containingBundles bg x) > minBundles")
    case False
    with AssetNode assms show ?thesis by (auto simp: collectVisit_def)
  next
    case True
    let ?key = "bucketKey (containingBundles bg x)"
    let ?new = "bucketAsset ag x (containingBundles bg x) (map_of m ?key)"
    have "fst (collectVisit ag bg n m) = mapSet ?key ?new m"
      using AssetNode True by (simp add: collectVisit_def)
    with assms(1) set_mapSet [of ?key ?new m] consider "kc \<in> set m" | "kc = (?key, ?new)"
      by auto
    then show ?thesis
    proof cases
      case 1
      with assms(2) show ?thesis by blast
    next
      case 2
      show ?thesis
      proof (cases "map_of m ?key")
        case None
        with 2 assms(2) have "a = x" by (simp add: bucketAsset_def)
        with AssetNode True show ?thesis by (simp add: skipsChildren_def)
      next
        case (Some c)
        with 2 assms(2) consider "a = x" | "a \<in> set (c_assets c)"
          by (auto simp: bucketAsset_def)
        then show ?thesis
        proof cases
          case 1
          with AssetNode True show ?thesis by (simp add: skipsChildren_def)
        next
          case 2
          moreover from Some have "(?key, c) \<in> set m" by (rule map_of_SomeD)
          ultimately show ?thesis by force
        qed
      qed
    qed
  qed
qed

lemma collectCandidates_reached:
  assumes kc: "kc \<in> set (collectCandidates ag bg)" and a: "a \<in> set (c_assets (snd kc))"
  shows "skipsChildren bg (AssetNode a) \<and>
         (\<exists>p d. AssetNode a \<in> set (nodeChildren ag (DependencyNode d)) \<and>
            (d \<in> set (ag_entries ag) \<or>
             (DependencyNode d \<in> set (nodeChildren ag p) \<and> \<not> skipsChildren bg p)))"
proof -
  define init where "init = map DependencyNode (ag_entries ag)"
  define reached where "reached visited n \<longleftrightarrow>
      n \<in> set init \<or> (\<exists>p \<in> set visited. \<not> skipsChildren bg p \<and> n \<in> set (nodeChildren ag p))"
    for visited :: "Node list" and n
  define I where "I stack visited m \<longleftrightarrow>
      (\<forall>n \<in> set stack \<union> set visited. reached visited n) \<and>
      (\<forall>kc \<in> set m. \<forall>a \<in> set (c_assets (snd kc)).
         AssetNode a \<in> set visited \<and> skipsChildren bg (AssetNode a))"
    for stack visited :: "Node list" and m :: "(string \<times> Candidate) list"
  have mono: "reached (n # visited) x" if "reached visited x" for n visited x
    using that by (auto simp: reached_def)
  have start: "I init [] []"
    by (simp add: I_def reached_def)
  have skip: "I stack visited m" if "I (n # stack) visited m" for n stack visited m
    using that by (simp add: I_def)
  have visit: "I ((if snd (collectVisit ag bg n m) then [] else nodeChildren ag n) @ stack)
      (n # visited) (fst (collectVisit ag bg n m))"
    if inv: "I (n # stack) visited m" for n stack visited m
  proof -
    have old: "reached (n # visited) x" if "x \<in> set (n # stack) \<union> set visited" for x
      using inv that mono by (auto simp: I_def)
    have new: "reached (n # visited) x"
      if "x \<in> set (if snd (collectVisit ag bg n m) then [] else nodeChildren ag n)" for x
      using that by (auto simp: reached_def collectVisit_skip split: if_splits)
    have nodes: "\<forall>x \<in> set ((if snd (collectVisit ag bg n m) then [] else nodeChildren ag n) @ stack)
        \<union> set (n # visited). reached (n # visited) x"
      using old new by auto
    have assets: "AssetNode a \<in> set (n # visited) \<and> skipsChildren bg (AssetNode a)"
      if "kc \<in> set (fst (collectVisit ag bg n m))" and "a \<in> set (c_assets (snd kc))" for kc a
      using collectVisit_assets [OF that] inv by (auto simp: I_def)
    from nodes assets show ?thesis
      unfolding I_def by blast
  qed
  have final: "I [] (snd (dfs (\<lambda>_. nodeChildren ag) (allNodes ag) (collectVisit ag bg) init [] []))
      (fst (dfs (\<lambda>_. nodeChildren ag) (allNodes ag) (collectVisit ag bg) init [] []))"
    using start skip visit by (intro dfs_invariant [where I = I]) blast+
  let ?visited = "snd (dfs (\<lambda>_. nodeChildren ag) (allNodes ag) (collectVisit ag bg) init [] [])"
  have cands: "collectCandidates ag bg
      = fst (dfs (\<lambda>_. nodeChildren ag) (allNodes ag) (collectVisit ag bg) init [] [])"
    by (simp add: collectCandidates_def traverseContents_def init_def)
  from final kc a have vis: "AssetNode a \<in> set ?visited" and sk: "skipsChildren bg (AssetNode a)"
    unfolding cands I_def by blast+
  from final vis have "reached ?visited (AssetNode a)"
    unfolding I_def by blast
  then obtain q where q: "q \<in> set ?visited" "\<not> skipsChildren bg q"
      "AssetNode a \<in> set (nodeChildren ag q)"
    by (auto simp: reached_def init_def)
  from q(3) obtain d where d: "q = DependencyNode d"
    by (cases q) (auto simp: nodeChildren_def)
  from final q(1) have "reached ?visited (DependencyNode d)"
    unfolding I_def d by blast
  then have "d \<in> set (ag_entries ag) \<or>
      (\<exists>p. DependencyNode d \<in> set (nodeChildren ag p) \<and> \<not> skipsChildren bg p)"
    by (auto simp: reached_def init_def)
  with sk q(3) d show ?thesis by blast
qed

text \<open>The visitor of pass 1 on a dependency.\<close>

lemma map_of_mapSet: "map_of (mapSet k v m) k' = (if k' = k then Some v else map_of m k')"
  by (induction m) auto

lemma set_getBundles_registerBundle:
  "set (getBundlesInBundleGroup (registerBundle b bg) k) \<subseteq> insert b (set (getBundlesInBundleGroup bg k))"
proof (cases "map_of (bg_groups bg) k")
  case None
  then show ?thesis
    by (simp add: registerBundle_def getBundlesInBundleGroup_def map_of_replaceMember)
next
  case (Some ms)
  have "set (map (replaceBundle b) ms) \<subseteq> insert b (set ms)"
    by (auto simp: replaceBundle_def)
  with Some show ?thesis
    by (auto simp: registerBundle_def getBundlesInBundleGroup_def map_of_replaceMember)
qed

lemma createBundle_entry:
  "createBundle splittable (entryBundleOpts d g a) bg
     = Inr (entryBundleOf splittable d g a, registerBundle (entryBundleOf splittable d g a) bg)"
  by (simp add: createBundle_def entryBundleOpts_def entryBundleOf_def Let_def)

lemma createEntryBundle_step:
  assumes "createEntryBundle splittable d g ref a st = Inr st'"
  shows "bs_bundlesByEntryAsset st'
           = mapSet a (entryBundleOf splittable d g a) (bs_bundlesByEntryAsset st)"
    and "bs_graph st'
           = addBundleToBundleGroup (entryBundleOf splittable d g a) g
               (registerBundle (entryBundleOf splittable d g a) (bs_graph st))"
  using assms
  by (auto simp: createEntryBundle_def createBundle_entry setFreshSiblings_def)

lemma set_getBundles_createEntryBundle:
  assumes "createEntryBundle splittable d g ref a st = Inr st'"
  shows "set (getBundlesInBundleGroup (bs_graph st') k)
           \<subseteq> insert (entryBundleOf splittable d g a) (set (getBundlesInBundleGroup (bs_graph st) k))"
  using set_getBundles_registerBundle [of "entryBundleOf splittable d g a" "bs_graph st" k]
  by (auto simp: createEntryBundle_step(2) [OF assms] getBundles_addBundleToBundleGroup
           set_setAdd)

lemma forEach_createEntryBundle:
  assumes "forEach (createEntryBundle splittable d g ref) as st = Inr st'"
  shows "(\<forall>a \<in> set as. map_of (bs_bundlesByEntryAsset st') a = Some (entryBundleOf splittable d g a)) \<and>
         (\<forall>a. a \<notin> set as \<longrightarrow>
            map_of (bs_bundlesByEntryAsset st') a = map_of (bs_bundlesByEntryAsset st) a) \<and>
         map fst (bg_groups (bs_graph st')) = map fst (bg_groups (bs_graph st)) \<and>
         (\<forall>b \<in> set (getBundlesInBundleGroup (bs_graph st') k).
            b \<in> set (getBundlesInBundleGroup (bs_graph st) k) \<or>
            (\<exists>a \<in> set as. b = entryBundleOf splittable d g a))"
  using assms
proof (induction as arbitrary: st)
  case Nil
  then show ?case by simp
next
  case (Cons x as)
  from Cons.prems obtain st1 where
    first: "createEntryBundle splittable d g ref x st = Inr st1" and
    rest: "forEach (createEntryBundle splittable d g ref) as st1 = Inr st'"
    by (auto split: sum.splits)
  note ih = Cons.IH [OF rest]
  note step = createEntryBundle_step [OF first]
  have recorded: "map_of (bs_bundlesByEntryAsset st1) a
      = (if a = x then Some (entryBundleOf splittable d g x) else map_of (bs_bundlesByEntryAsset st) a)"
    for a
    by (simp add: step(1) map_of_mapSet)
  have keys: "map fst (bg_groups (bs_graph st1)) = map fst (bg_groups (bs_graph st))"
    by (simp add: step(2) keys_addBundleToBundleGroup keys_registerBundle)
  have members: "set (getBundlesInBundleGroup (bs_graph st1) k)
      \<subseteq> insert (entryBundleOf splittable d g x) (set (getBundlesInBundleGroup (bs_graph st) k))"
    using first by (rule set_getBundles_createEntryBundle)
  have one: "\<forall>a \<in> set (x # as).
      map_of (bs_bundlesByEntryAsset st') a = Some (entryBundleOf splittable d g a)"
    using ih recorded by (metis set_ConsD)
  have two: "\<forall>a. a \<notin> set (x # as) \<longrightarrow>
      map_of (bs_bundlesByEntryAsset st') a = map_of (bs_bundlesByEntryAsset st) a"
    using ih recorded by simp
  have three: "map fst (bg_groups (bs_graph st')) = map fst (bg_groups (bs_graph st))"
    using ih keys by simp
  have four: "\<forall>b \<in> set (getBundlesInBundleGroup (bs_graph st') k).
      b \<in> set (getBundlesInBundleGroup (bs_graph st) k) \<or>
      (\<exists>a \<in> set (x # as). b = entryBundleOf splittable d g a)"
  proof
    fix b
    assume "b \<in> set (getBundlesInBundleGroup (bs_graph st') k)"
    with ih consider "b \<in> set (getBundlesInBundleGroup (bs_graph st1) k)"
      | "\<exists>a \<in> set as. b = entryBundleOf splittable d g a"
      by blast
    then show "b \<in> set (getBundlesInBundleGroup (bs_graph st) k) \<or>
      (\<exists>a \<in> set (x # as). b = entryBundleOf splittable d g a)"
    proof cases
      case 1
      with members show ?thesis by auto
    next
      case 2
      then show ?thesis by auto
    qed
  qed
  from one two three four show ?case by blast
qed

lemma keys_placeAsset:
  assumes "placeAsset splittable d parentAsset parentBundle g gd ref sib same a st = Inr st'"
  shows "map fst (bg_groups (bs_graph st')) = map fst (bg_groups (bs_graph st))"
proof -
  have fold: "map fst (bg_groups (fold (\<lambda>b. addBundleToBundleGroup b g) bs h))
      = map fst (bg_groups h)" for bs h
    by (induction bs arbitrary: h) (simp_all add: keys_addBundleToBundleGroup)
  have created: "map fst (bg_groups (snd c)) = map fst (bg_groups h)"
    if "createBundle splittable opts h = Inr c" for opts h c
    using createBundle_registers [OF that] by (simp add: keys_registerBundle)
  show ?thesis
    using assms
    by (auto simp: placeAsset_def Let_def fold setFreshSiblings_def createAssetReference_def
          createBundleReference_def keys_addBundleToBundleGroup
        split: if_splits option.splits sum.splits prod.splits
        dest!: created)
qed

lemma opensBundleGroup_iff:
  "opensBundleGroup d res =
     ((d_isEntry d \<or> d_isAsync d) \<and> res \<noteq> None \<or>
      (\<exists>r. res = Some r \<and> (a_isIsolated r \<or> a_isInline r)))"
  by (cases res) (auto simp: opensBundleGroup_def)

lemma groupTarget_iff:
  "groupTarget d ctx = Some t \<longleftrightarrow>
     (d_target d = Some t \<or>
      (d_target d = None \<and> (\<exists>c g. ctx = Some c \<and> ctx_bundleGroup c = Some g \<and> g_target g = t)))"
  by (auto simp: groupTarget_def split: option.splits)

lemma enter_opens:
  assumes "opensBundleGroup d (getDependencyResolution ag d)"
    and "enter splittable ag (DependencyNode d) ctx st = Inr (ctx', st')"
  obtains t where "groupTarget d ctx = Some t"
    and "ctx_bundleGroup ctx' = Some \<lparr>g_dependency = d, g_target = t\<rparr>"
    and "forEach (createEntryBundle splittable d \<lparr>g_dependency = d, g_target = t\<rparr>
             (length (bs_maps st)))
           (getDependencyAssets ag d)
           (st\<lparr>bs_graph := snd (createBundleGroup d t (bs_graph st)),
               bs_maps := bs_maps st @ [[]]\<rparr>) = Inr st'"
  using assms
  by (auto simp: enter_def Let_def createBundleGroup_def
      split: option.splits sum.splits prod.splits if_splits)

lemma enter_same_group:
  assumes "\<not> opensBundleGroup d (getDependencyResolution ag d)"
    and "enter splittable ag (DependencyNode d) ctx st = Inr (ctx', st')"
  shows "map fst (bg_groups (bs_graph st')) = map fst (bg_groups (bs_graph st))"
proof -
  from assms obtain parentAsset parentBundle g gd ref sib same where
    "forEach (placeAsset splittable d parentAsset parentBundle g gd ref sib same)
       (getDependencyAssets ag d) st = Inr st'"
    by (auto simp: enter_def Let_def
        split: option.splits sum.splits prod.splits if_splits Node.splits)
  then show ?thesis
    by (rule forEach_preserves
        [where P = "\<lambda>s. map fst (bg_groups (bs_graph s)) = map fst (bg_groups (bs_graph st))",
         rotated 2])
       (simp_all add: keys_placeAsset)
qed












text \<open>Internalizing changes the marks only, and the marks decide nothing else.\<close>

lemma referrers_internalized [simp]:
  "referrers (bg\<lparr>bg_internalized := i\<rparr>) = referrers bg"
  by (rule ext) (simp add: referrers_def)

lemma hasAsset_internalized [simp]:
  "hasAsset (bg\<lparr>bg_internalized := i\<rparr>) b a = hasAsset bg b a"
  by (simp add: hasAsset_def)

lemma isAssetInAncestorBundles_internalized [simp]:
  "isAssetInAncestorBundles (bg\<lparr>bg_internalized := i\<rparr>) b a = isAssetInAncestorBundles bg b a"
proof -
  have "ancestorHasAsset (bg\<lparr>bg_internalized := i\<rparr>) b a = ancestorHasAsset bg b a"
    by (rule ext) (simp add: ancestorHasAsset_def)
  then have "inAncestorsVia (bg\<lparr>bg_internalized := i\<rparr>) b a r = inAncestorsVia bg b a r" for r
    by (rule_tac ext) (simp add: inAncestorsVia_def)
  then show ?thesis
    by (simp add: isAssetInAncestorBundles_def bundleAncestors_def)
qed








text \<open>A run of \<^verbatim>\<open>optimize\<close> that finds nothing to do changes nothing.\<close>

lemma fold_idle:
  assumes "\<And>x. x \<in> set xs \<Longrightarrow> f x s = s"
  shows "fold f xs s = s"
  using assms by (induction xs) auto

lemma forEach_idle:
  assumes "\<And>x. x \<in> set xs \<Longrightarrow> body x s = Inr s"
  shows "forEach body xs s = Inr s"
  using assms by (induction xs) auto

lemma dfs_preserves_visited:
  assumes "\<And>n s. n \<in> set universe \<Longrightarrow> P s \<Longrightarrow> P (fst (visit n s))" and "P s"
  shows "P (fst (dfs children universe visit stack visited s))"
proof -
  have "(\<lambda>st vs t. P t) [] (snd (dfs children universe visit stack visited s))
          (fst (dfs children universe visit stack visited s))"
    by (rule dfs_invariant) (simp_all add: assms)
  then show ?thesis .
qed

lemma dfs_idle:
  assumes "\<And>n. n \<in> set universe \<Longrightarrow> fst (visit n s) = s"
  shows "fst (dfs children universe visit stack visited s) = s"
  by (rule dfs_preserves_visited [where P = "\<lambda>t. t = s"]) (simp_all add: assms)

lemma getDependencyAssets_resolved:
  "set (getDependencyAssets ag d) \<subseteq> set (concat (map snd (ag_resolved ag)))"
proof (cases "map_of (ag_resolved ag) (d_id d)")
  case None
  then show ?thesis by (simp add: getDependencyAssets_def)
next
  case (Some as)
  then have "(d_id d, as) \<in> set (ag_resolved ag)" by (rule map_of_SomeD)
  then have "set as \<subseteq> set (concat (map snd (ag_resolved ag)))" by force
  with Some show ?thesis by (simp add: getDependencyAssets_def)
qed

lemma pass2_idle:
  assumes "list_all (nothingToReparent bg) (bg_bundles bg)"
  shows "pass2 ag bg = bg"
proof -
  have "reparentVisit ag b bg = bg" if "b \<in> set (bg_bundles bg)" for b
  proof -
    from assms that have quiet: "nothingToReparent bg b" by (simp add: list_all_iff)
    show ?thesis
    proof (cases "b_isInline b \<or> \<not> b_isSplittable b")
      case True
      then show ?thesis by (simp add: reparentVisit_def)
    next
      case False
      show ?thesis
      proof (cases "getMainEntry b")
        case None
        with False show ?thesis by (simp add: reparentVisit_def)
      next
        case (Some mainEntry)
        with quiet False have "list_all (lacksRoom bg) (reparentCandidates bg b mainEntry)"
          by (simp add: nothingToReparent_def)
        then have "reparentCandidate ag b (reparentSiblings bg b) mainEntry c bg = bg"
          if "c \<in> set (reparentCandidates bg b mainEntry)" for c
          using that by (auto simp: list_all_iff lacksRoom_def reparentCandidate_def)
        then have "fold (reparentCandidate ag b (reparentSiblings bg b) mainEntry)
                     (reparentCandidates bg b mainEntry) bg = bg"
          by (rule fold_idle)
        with False Some show ?thesis by (simp add: reparentVisit_def)
      qed
    qed
  qed
  then have "fold (reparentVisit ag) (bg_bundles bg) bg = bg" by (rule fold_idle)
  then show ?thesis by (simp add: pass2_def traverseBundles_def)
qed

lemma pass3_idle:
  assumes "list_all (nothingToDeduplicate ag bg) (bg_bundles bg)"
  shows "pass3 ag bg = bg"
proof -
  have "deduplicateBundle ag b bg = bg" if "b \<in> set (bg_bundles bg)" for b
  proof (cases "isIsolated (b_env b) \<or> \<not> b_isSplittable b")
    case True
    then show ?thesis by (simp add: deduplicateBundle_def)
  next
    case False
    from assms that have "nothingToDeduplicate ag bg b" by (simp add: list_all_iff)
    with False have kept: "notDuplicated bg b a"
      if "a \<in> set (concat (map snd (ag_resolved ag)))" for a
      using that by (auto simp: nothingToDeduplicate_def list_all_iff)
    have "fst (plainVisit (deduplicateVisit ag b) n bg) = bg" for n
    proof (cases n)
      case (AssetNode a)
      then show ?thesis by (simp add: plainVisit_def deduplicateVisit_def)
    next
      case (DependencyNode d)
      have "deduplicateAsset ag b a bg = bg" if "a \<in> set (getDependencyAssets ag d)" for a
      proof -
        from that getDependencyAssets_resolved [of ag d]
        have "a \<in> set (concat (map snd (ag_resolved ag)))" by blast
        then have "notDuplicated bg b a" by (rule kept)
        then show ?thesis by (auto simp: notDuplicated_def deduplicateAsset_def)
      qed
      then have "fold (deduplicateAsset ag b) (getDependencyAssets ag d) bg = bg"
        by (rule fold_idle)
      with DependencyNode show ?thesis by (simp add: plainVisit_def deduplicateVisit_def)
    qed
    then have "bundleTraverse ag b (deduplicateVisit ag b) bg = bg"
      unfolding bundleTraverse_def by (intro dfs_idle)
    with False show ?thesis by (simp add: deduplicateBundle_def)
  qed
  then have "fold (deduplicateBundle ag) (bg_bundles bg) bg = bg" by (rule fold_idle)
  then show ?thesis by (simp add: pass3_def traverseBundles_def)
qed

lemma pass4_idle:
  assumes "nothingToShare ag bg"
  shows "pass4 md5FromString ag bg = Inr bg"
proof -
  have "extractSharedBundle md5FromString ag c bg = Inr bg"
    if "c \<in> set (sortedCandidates (collectCandidates ag bg))" for c
    using assms that by (simp add: nothingToShare_def list_all_iff blocked_def extractSharedBundle_def)
  then show ?thesis
    unfolding pass4_def by (rule forEach_idle)
qed

lemma internalizeIn_idle:
  assumes "internalizedWhereAvailable bg d r b"
  shows "internalizeIn d r b bg = bg"
proof (cases "hasAsset bg b r \<or> isAssetInAncestorBundles bg b r")
  case True
  with assms have "(b_id b, d_id d) \<in> set (bg_internalized bg)"
    by (auto simp: internalizedWhereAvailable_def isInternalized_def)
  then have "setAdd (b_id b, d_id d) (bg_internalized bg) = bg_internalized bg"
    by (simp add: setAdd_def)
  with True show ?thesis
    by (simp add: internalizeIn_def internalizeAsyncDependency_def)
next
  case False
  then show ?thesis by (simp add: internalizeIn_def)
qed

lemma internalizeVisit_idle:
  assumes quiet: "nothingToInternalize ag bg"
    and n: "n \<in> set (allNodes ag)"
    and gs: "\<forall>g \<in> set gs. getParentBundlesOfBundleGroup ag bg g \<noteq> []"
  shows "\<exists>gs'. fst (internalizeVisit ag n (Inr (bg, gs))) = Inr (bg, gs') \<and>
           (\<forall>g \<in> set gs'. getParentBundlesOfBundleGroup ag bg g \<noteq> [])"
proof (cases n)
  case (AssetNode a)
  with gs show ?thesis by (simp add: internalizeVisit_def)
next
  case (DependencyNode d)
  with n have "d \<in> set (ag_entries ag @ concat (map snd (ag_dependencies ag)))"
    by (auto simp: allNodes_def)
  with quiet have d: "settledDependency ag bg d"
    by (simp add: nothingToInternalize_def list_all_iff)
  show ?thesis
  proof (cases "d_isEntry d \<or> \<not> d_isAsync d")
    case True
    with DependencyNode gs show ?thesis by (simp add: internalizeVisit_def)
  next
    case False
    then have visit: "fst (internalizeVisit ag n (Inr (bg, gs))) = internalizeDependency ag d bg gs"
      using DependencyNode by (simp add: internalizeVisit_def)
    show ?thesis
    proof (cases "getDependencyResolution ag d")
      case None
      with visit gs show ?thesis by (simp add: internalizeDependency_def)
    next
      case (Some r)
      with d False obtain g where
        g: "resolveExternalDependency bg d = Some (ExtBundleGroup g)" and
        parents: "getParentBundlesOfBundleGroup ag bg g \<noteq> []" and
        marks: "list_all (internalizedWhereAvailable bg d r) (findBundlesWithDependency ag bg d)"
        by (auto simp: settledDependency_def split: option.splits ExternalResolution.splits)
      from marks have "internalizeIn d r b bg = bg"
        if "b \<in> set (findBundlesWithDependency ag bg d)" for b
        using that by (intro internalizeIn_idle) (simp add: list_all_iff)
      then have "fold (internalizeIn d r) (findBundlesWithDependency ag bg d) bg = bg"
        by (rule fold_idle)
      with Some g have "internalizeDependency ag d bg gs = Inr (bg, setAdd g gs)"
        by (simp add: internalizeDependency_def)
      moreover have "\<forall>x \<in> set (setAdd g gs). getParentBundlesOfBundleGroup ag bg x \<noteq> []"
        using gs parents by (simp add: set_setAdd)
      ultimately show ?thesis using visit by simp
    qed
  qed
qed

lemma pass5_idle:
  assumes "nothingToInternalize ag bg"
  shows "pass5 ag bg = Inr bg"
proof -
  let ?P = "\<lambda>st. \<exists>gs. st = Inr (bg, gs) \<and>
                (\<forall>g \<in> set gs. getParentBundlesOfBundleGroup ag bg g \<noteq> [])"
  let ?run = "dfs (\<lambda>_. nodeChildren ag) (allNodes ag) (internalizeVisit ag)
                (map DependencyNode (ag_entries ag)) [] (Inr (bg, []))"
  have step: "?P (fst (internalizeVisit ag n st))" if "n \<in> set (allNodes ag)" and "?P st" for n st
  proof -
    from that(2) obtain gs where st: "st = Inr (bg, gs)"
      and gs: "\<forall>g \<in> set gs. getParentBundlesOfBundleGroup ag bg g \<noteq> []"
      by blast
    from assms that(1) gs show ?thesis
      unfolding st by (rule internalizeVisit_idle)
  qed
  have "?P (fst ?run)"
  proof (rule dfs_preserves_visited [where P = ?P])
    show "?P (Inr (bg, []))" by simp
  next
    fix n :: Node and st :: "error + BundleGraph \<times> BundleGroup list"
    assume "n \<in> set (allNodes ag)" and "?P st"
    then show "?P (fst (internalizeVisit ag n st))" by (rule step)
  qed
  then obtain gs where run: "traverse ag (internalizeVisit ag) (Inr (bg, [])) = Inr (bg, gs)"
    and gs: "\<forall>g \<in> set gs. getParentBundlesOfBundleGroup ag bg g \<noteq> []"
    unfolding traverse_def by blast
  have "removeIfOrphan ag g bg = bg" if "g \<in> set gs" for g
    using gs that by (simp add: removeIfOrphan_def)
  then have "removeOrphans ag gs bg = bg"
    unfolding removeOrphans_def by (rule fold_idle)
  with run show ?thesis by (simp add: pass5_def)
qed



section \<open>The claims\<close>

text \<open>
  C8. Ancestor dedup leaves a bundle unchanged when the bundle's environment is isolated or
  the bundle is not splittable: \<^verbatim>\<open>deduplicateBundle\<close> returns the bundle graph as it is, for the
  bundles of pass 3 and for a new shared bundle alike; and where no other bundle has the
  bundle's id, the whole of pass 3 removes no asset from it.
\<close>

theorem deduplicateBundle_isolated_unchanged:
  assumes "isIsolated (b_env b) \<or> \<not> b_isSplittable b"
  shows "deduplicateBundle ag b bg = bg \<and>
         ((\<forall>b' \<in> set (bg_bundles bg). b_id b' = b_id b \<longrightarrow> b' = b)
            \<longrightarrow> bundleContents (pass3 ag bg) b = bundleContents bg b)"
proof (intro conjI impI)
  show "deduplicateBundle ag b bg = bg"
    using assms by (rule deduplicateBundle_skip)
next
  assume only: "\<forall>b' \<in> set (bg_bundles bg). b_id b' = b_id b \<longrightarrow> b' = b"
  have step: "bundleContents (deduplicateBundle ag b' g) b = bundleContents g b"
    if "b' \<in> set (bg_bundles bg)" for b' g
  proof (cases "b_id b' = b_id b")
    case True
    with only that have "b' = b" by blast
    then show ?thesis by (simp add: deduplicateBundle_skip [OF assms])
  next
    case False
    then show ?thesis by (rule deduplicateBundle_other)
  qed
  have "bundleContents (fold (deduplicateBundle ag) (bg_bundles bg) bg) b = bundleContents bg b"
    by (rule fold_preserves [where P = "\<lambda>g. bundleContents g b = bundleContents bg b"])
       (simp_all add: step)
  then show "bundleContents (pass3 ag bg) b = bundleContents bg b"
    by (simp add: pass3_def traverseBundles_def)
qed

theorem deduplicateBundle_isolated_unchanged_witness:
  "isIsolated (b_env workerBundle) \<and>
   isAssetInAncestorBundles workerGraph workerBundle (exAsset ''s'' 10) \<and>
   deduplicateBundle workerAssets workerBundle workerGraph = workerGraph \<and>
   bundleContents (pass3 workerAssets workerGraph) workerBundle = [''w'', ''s'']"
proof -
  have iso: "isIsolated (b_env workerBundle) \<or> \<not> b_isSplittable workerBundle"
    by code_simp
  have only: "\<forall>b' \<in> set (bg_bundles workerGraph). b_id b' = b_id workerBundle \<longrightarrow> b' = workerBundle"
    by code_simp
  have before: "bundleContents workerGraph workerBundle = [''w'', ''s'']"
    by code_simp
  have anc: "isAssetInAncestorBundles workerGraph workerBundle (exAsset ''s'' 10)"
    by code_simp
  have "isIsolated (b_env workerBundle)"
    by code_simp
  with deduplicateBundle_isolated_unchanged [OF iso, of workerAssets workerGraph] only before anc
  show ?thesis by simp
qed

text \<open>
  C1, as amended. In the loop of pass 2 over the candidates, the asset graph of the main entry
  is removed from the candidate and the bundle with its non-inline referenced siblings is added
  to every bundle group that contains the candidate exactly when each of these groups has
  fewer than \<^verbatim>\<open>maxParallelRequests\<close> bundles before the additions (\<open>hasRoom\<close>); otherwise the
  bundle graph is left as it is. After the additions each of these groups holds its former
  bundles, the bundle and all the siblings.
\<close>

theorem reparentCandidate_checks_room_for_one:
  "(list_all (hasRoom bg) (getBundleGroupsContainingBundle bg candidate) \<longrightarrow>
      reparentCandidate ag b siblings mainEntry candidate bg =
        addBundlesToGroups (b # siblings) (getBundleGroupsContainingBundle bg candidate)
          (removeAssetGraphFromBundle ag mainEntry candidate bg) \<and>
      (\<forall>g \<in> set (getBundleGroupsContainingBundle bg candidate).
         set (getBundlesInBundleGroup
                (reparentCandidate ag b siblings mainEntry candidate bg) g) =
         set (getBundlesInBundleGroup bg g) \<union> set (b # siblings))) \<and>
   (\<not> list_all (hasRoom bg) (getBundleGroupsContainingBundle bg candidate) \<longrightarrow>
      reparentCandidate ag b siblings mainEntry candidate bg = bg)"
proof (intro conjI impI ballI)
  assume room: "list_all (hasRoom bg) (getBundleGroupsContainingBundle bg candidate)"
  then show eq: "reparentCandidate ag b siblings mainEntry candidate bg =
        addBundlesToGroups (b # siblings) (getBundleGroupsContainingBundle bg candidate)
          (removeAssetGraphFromBundle ag mainEntry candidate bg)"
    by (simp add: reparentCandidate_def)
  fix g
  assume g: "g \<in> set (getBundleGroupsContainingBundle bg candidate)"
  then have "g \<in> set (map fst (bg_groups bg))"
    using containing_groups_present by blast
  then have present: "g \<in> set (map fst (bg_groups (removeAssetGraphFromBundle ag mainEntry candidate bg)))"
    by (simp add: removeAssetGraphFromBundle_def)
  show "set (getBundlesInBundleGroup (reparentCandidate ag b siblings mainEntry candidate bg) g) =
        set (getBundlesInBundleGroup bg g) \<union> set (b # siblings)"
    unfolding eq set_getBundles_addBundlesToGroups
    using g present by (simp add: getBundles_removeAssetGraphFromBundle)
next
  assume "\<not> list_all (hasRoom bg) (getBundleGroupsContainingBundle bg candidate)"
  then show "reparentCandidate ag b siblings mainEntry candidate bg = bg"
    by (simp add: reparentCandidate_def)
qed

theorem reparentCandidate_checks_room_for_one_witness:
  "list_all (hasRoom reparentGraph) (getBundleGroupsContainingBundle reparentGraph reparentSource) \<and>
   getBundleGroupsContainingBundle reparentGraph reparentSource = [reparentGroup] \<and>
   set (getBundlesInBundleGroup
          (reparentCandidate reparentAssets reparentEntry
             (reparentSiblings reparentGraph reparentEntry) (exAsset ''e'' 10)
             reparentSource reparentGraph)
          reparentGroup) =
   set (getBundlesInBundleGroup reparentGraph reparentGroup) \<union>
   set (reparentEntry # reparentSiblings reparentGraph reparentEntry) \<and>
   \<not> list_all (hasRoom (pass2 reparentAssets reparentGraph))
        (getBundleGroupsContainingBundle (pass2 reparentAssets reparentGraph) reparentSource) \<and>
   reparentCandidate reparentAssets reparentEntry
     (reparentSiblings reparentGraph reparentEntry) (exAsset ''e'' 10) reparentSource
     (pass2 reparentAssets reparentGraph) = pass2 reparentAssets reparentGraph"
proof -
  have room: "list_all (hasRoom reparentGraph)
      (getBundleGroupsContainingBundle reparentGraph reparentSource)"
    by code_simp
  have groups: "getBundleGroupsContainingBundle reparentGraph reparentSource = [reparentGroup]"
    by code_simp
  have full: "\<not> list_all (hasRoom (pass2 reparentAssets reparentGraph))
      (getBundleGroupsContainingBundle (pass2 reparentAssets reparentGraph) reparentSource)"
    by code_simp
  note first = reparentCandidate_checks_room_for_one
    [of reparentGraph reparentSource reparentAssets reparentEntry
        "reparentSiblings reparentGraph reparentEntry" "exAsset ''e'' 10"]
  note second = reparentCandidate_checks_room_for_one
    [of "pass2 reparentAssets reparentGraph" reparentSource reparentAssets reparentEntry
        "reparentSiblings reparentGraph reparentEntry" "exAsset ''e'' 10"]
  from first room
  have added: "\<forall>g \<in> set (getBundleGroupsContainingBundle reparentGraph reparentSource).
      set (getBundlesInBundleGroup
             (reparentCandidate reparentAssets reparentEntry
                (reparentSiblings reparentGraph reparentEntry) (exAsset ''e'' 10)
                reparentSource reparentGraph) g) =
      set (getBundlesInBundleGroup reparentGraph g) \<union>
      set (reparentEntry # reparentSiblings reparentGraph reparentEntry)"
    by blast
  from second full
  have declined: "reparentCandidate reparentAssets reparentEntry
      (reparentSiblings reparentGraph reparentEntry) (exAsset ''e'' 10) reparentSource
      (pass2 reparentAssets reparentGraph) = pass2 reparentAssets reparentGraph"
    by blast
  from added groups
  have "set (getBundlesInBundleGroup
             (reparentCandidate reparentAssets reparentEntry
                (reparentSiblings reparentGraph reparentEntry) (exAsset ''e'' 10)
                reparentSource reparentGraph) reparentGroup) =
      set (getBundlesInBundleGroup reparentGraph reparentGroup) \<union>
      set (reparentEntry # reparentSiblings reparentGraph reparentEntry)"
    by simp
  with room groups full declined show ?thesis by blast
qed

text \<open>
  C1 as stated fails: the group of the candidate has four bundles, so the test passes; the
  pass removes the entry's asset graph from the candidate and adds the bundle and its two
  siblings, and the group ends with seven bundles, above \<^verbatim>\<open>maxParallelRequests\<close>.
\<close>

theorem reparent_exceeds_limit_counterexample:
  "length (getBundlesInBundleGroup reparentGraph reparentGroup) = 4 \<and>
   hasAsset reparentGraph reparentSource (exAsset ''e'' 10) \<and>
   \<not> hasAsset (pass2 reparentAssets reparentGraph) reparentSource (exAsset ''e'' 10) \<and>
   map b_id (getBundlesInBundleGroup (pass2 reparentAssets reparentGraph) reparentGroup)
     = [''c'', ''x1'', ''x2'', ''x3'', ''e'', ''s1'', ''s2''] \<and>
   length (getBundlesInBundleGroup (pass2 reparentAssets reparentGraph) reparentGroup)
     > maxParallelRequests"
  by code_simp

text \<open>
  C2, as amended. A bundle graph whose bundle groups all have at most
  \<^verbatim>\<open>maxParallelRequests\<close> bundles keeps that bound through pass 3, through pass 4 and through
  pass 5: passes 3 and 5 add no bundle to a group, and pass 4 adds a shared bundle only to
  groups that are not full. So the output of the optimizer is within the limit when the graph
  after pass 2 is. Pass 2 itself is not covered: it does not keep the bound.
\<close>

theorem passes_3_to_5_keep_limit:
  "(withinLimit bg \<longrightarrow> withinLimit (pass3 ag bg)) \<and>
   (withinLimit bg \<longrightarrow> (\<forall>bg'. pass4 md5FromString ag bg = Inr bg' \<longrightarrow> withinLimit bg')) \<and>
   (withinLimit bg \<longrightarrow> (\<forall>bg'. pass5 ag bg = Inr bg' \<longrightarrow> withinLimit bg')) \<and>
   (withinLimit (pass2 ag bg) \<longrightarrow>
      (\<forall>out. optimize md5FromString ag bg = Inr out \<longrightarrow> withinLimit out))"
proof (intro conjI impI allI)
  assume "withinLimit bg"
  then show "withinLimit (pass3 ag bg)"
    using withinLimit_cong [OF groups_pass3] by blast
next
  fix bg'
  assume "withinLimit bg" and "pass4 md5FromString ag bg = Inr bg'"
  then show "withinLimit bg'" by (rule pass4_withinLimit)
next
  fix bg'
  assume "withinLimit bg" and "pass5 ag bg = Inr bg'"
  then show "withinLimit bg'" by (rule pass5_withinLimit)
next
  fix out
  assume two: "withinLimit (pass2 ag bg)" and run: "optimize md5FromString ag bg = Inr out"
  from run obtain bg4 where
    four: "pass4 md5FromString ag (pass3 ag (pass2 ag bg)) = Inr bg4" and
    five: "pass5 ag bg4 = Inr out"
    by (auto simp: optimize_def split: sum.splits)
  from two have "withinLimit (pass3 ag (pass2 ag bg))"
    using withinLimit_cong [OF groups_pass3] by blast
  then have "withinLimit bg4" using four by (rule pass4_withinLimit)
  then show "withinLimit out" using five by (rule pass5_withinLimit)
qed

text \<open>
  C2 as stated fails: every bundle group of the example has at most five bundles, and after
  pass 2, and in the output of the optimizer, the group of the candidate has seven.
\<close>

theorem limit_broken_by_pass2_counterexample:
  "withinLimit reparentGraph \<and>
   \<not> withinLimit (pass2 reparentAssets reparentGraph) \<and>
   (case optimize (\<lambda>s. s) reparentAssets reparentGraph of
      Inl e \<Rightarrow> False
    | Inr out \<Rightarrow> \<not> withinLimit out \<and> length (getBundlesInBundleGroup out reparentGroup) = 7)"
  by code_simp

text \<open>
  C3, as amended. When no connected bundle group is full, pass 4 creates the shared bundle of
  a candidate with the unique key \<^verbatim>\<open>md5FromString\<close> of the ids of the source bundles joined by
  \<^verbatim>\<open>:\<close> in the order of the set \<^verbatim>\<open>sourceBundles\<close>, splittable, with the environment, the
  target and the type of the first source bundle. Nothing is compared with the other source
  bundles: the step succeeds for any source bundles.
\<close>

theorem sharedBundle_from_first_source:
  assumes "\<not> list_ex (isFull bg) (candidateBundleGroups bg (c_sourceBundles cand))"
    and "c_sourceBundles cand = firstBundle # others"
  shows "o_uniqueKey (sharedBundleOpts md5FromString (c_sourceBundles cand) firstBundle)
           = Some (md5FromString (join '':'' (map b_id (c_sourceBundles cand)))) \<and>
         (\<exists>bg'. extractSharedBundle md5FromString ag cand bg = Inr bg' \<and>
            \<lparr>b_id = md5FromString (join '':'' (map b_id (c_sourceBundles cand))),
             b_type = b_type firstBundle,
             b_env = b_env firstBundle,
             b_target = b_target firstBundle,
             b_isEntry = False,
             b_isInline = False,
             b_isSplittable = True,
             b_mainEntry = None\<rparr> \<in> set (bg_bundles bg'))"
proof
  show "o_uniqueKey (sharedBundleOpts md5FromString (c_sourceBundles cand) firstBundle)
          = Some (md5FromString (join '':'' (map b_id (c_sourceBundles cand))))"
    by (simp add: sharedBundleOpts_def)
next
  let ?shared = "\<lparr>b_id = md5FromString (join '':'' (map b_id (c_sourceBundles cand))),
             b_type = b_type firstBundle,
             b_env = b_env firstBundle,
             b_target = b_target firstBundle,
             b_isEntry = False,
             b_isInline = False,
             b_isSplittable = True,
             b_mainEntry = None\<rparr>"
  let ?gs = "candidateBundleGroups bg (c_sourceBundles cand)"
  have created: "createBundle (\<lambda>_. False)
      (sharedBundleOpts md5FromString (c_sourceBundles cand) firstBundle) bg
      = Inr (?shared, registerBundle ?shared bg)"
    by (simp add: createBundle_def sharedBundleOpts_def Let_def)
  have "extractSharedBundle md5FromString ag cand bg
      = (case createBundle (\<lambda>_. False)
                (sharedBundleOpts md5FromString (c_sourceBundles cand) firstBundle) bg of
           Inl e \<Rightarrow> Inl e
         | Inr created \<Rightarrow> Inr (fillSharedBundle ag cand ?gs (fst created) (snd created)))"
    using assms by (simp add: extractSharedBundle_def)
  then have run: "extractSharedBundle md5FromString ag cand bg
      = Inr (fillSharedBundle ag cand ?gs ?shared (registerBundle ?shared bg))"
    by (simp only: created sum.case fst_conv snd_conv)
  have "?shared \<in> set (bg_bundles (fillSharedBundle ag cand ?gs ?shared (registerBundle ?shared bg)))"
    by (simp add: bundles_fillSharedBundle registerBundle_member)
  with run show "\<exists>bg'. extractSharedBundle md5FromString ag cand bg = Inr bg' \<and>
      ?shared \<in> set (bg_bundles bg')"
    by blast
qed

theorem sharedBundle_from_first_source_witness:
  "\<not> list_ex (isFull sharedGraph) (candidateBundleGroups sharedGraph (c_sourceBundles sharedCandidate)) \<and>
   c_sourceBundles sharedCandidate = sharedSecond # [sharedFirst] \<and>
   sortedCandidates (collectCandidates sharedAssets sharedGraph) = [sharedCandidate] \<and>
   (\<exists>bg'. extractSharedBundle (\<lambda>s. s) sharedAssets sharedCandidate sharedGraph = Inr bg' \<and>
      \<lparr>b_id = join '':'' (map b_id (c_sourceBundles sharedCandidate)),
       b_type = b_type sharedSecond,
       b_env = b_env sharedSecond,
       b_target = b_target sharedSecond,
       b_isEntry = False,
       b_isInline = False,
       b_isSplittable = True,
       b_mainEntry = None\<rparr> \<in> set (bg_bundles bg'))"
proof -
  have room: "\<not> list_ex (isFull sharedGraph)
      (candidateBundleGroups sharedGraph (c_sourceBundles sharedCandidate))"
    by code_simp
  have src: "c_sourceBundles sharedCandidate = sharedSecond # [sharedFirst]"
    by code_simp
  have cands: "sortedCandidates (collectCandidates sharedAssets sharedGraph) = [sharedCandidate]"
    by code_simp
  from sharedBundle_from_first_source [OF room src, of "\<lambda>s. s" sharedAssets] src cands room
  show ?thesis by blast
qed

text \<open>
  C3 as stated fails. The key of the bucket is sorted, \<^verbatim>\<open>e1:e2\<close>, but the unique key of the
  shared bundle hashes the ids in the order of the set, \<^verbatim>\<open>e2:e1\<close> (the digest is taken to be
  the identity here). The two source bundles differ in environment and in target, and pass 4
  does not fail: the shared bundle has those of the first.
\<close>

theorem sharedBundle_key_unsorted_counterexample:
  "map fst (collectCandidates sharedAssets sharedGraph) = [''e1:e2''] \<and>
   bucketKey (c_sourceBundles sharedCandidate) = ''e1:e2'' \<and>
   o_uniqueKey (sharedBundleOpts (\<lambda>s. s) (c_sourceBundles sharedCandidate) sharedSecond)
     = Some ''e2:e1'' \<and>
   b_env sharedSecond \<noteq> b_env sharedFirst \<and>
   b_target sharedSecond \<noteq> b_target sharedFirst \<and>
   (case pass4 (\<lambda>s. s) sharedAssets sharedGraph of
      Inl e \<Rightarrow> False
    | Inr out \<Rightarrow>
        map b_id (bg_bundles out) = [''m'', ''e2'', ''e1'', ''e2:e1''] \<and>
        map b_env (filter (\<lambda>b. b_id b = ''e2:e1'') (bg_bundles out)) = [b_env sharedSecond] \<and>
        map b_target (filter (\<lambda>b. b_id b = ''e2:e1'') (bg_bundles out)) = [''dist''])"
  by code_simp

text \<open>
  C6. Every candidate from which pass 4 creates a shared bundle has a total size of at least
  \<^verbatim>\<open>minBundleSize\<close>, the sum of \<^verbatim>\<open>getTotalSize\<close> over its assets, and more than \<^verbatim>\<open>minBundles\<close>
  source bundles, all different; every source bundle is not an entry bundle, is splittable,
  and contains an asset of the candidate that is not its main entry. The bundles of the graph
  are taken to be pairwise different.
\<close>

theorem sharedBundle_lower_bounds:
  assumes "distinct (bg_bundles bg)"
    and "c \<in> set (sortedCandidates (collectCandidates ag bg))"
  shows "c_size c \<ge> minBundleSize \<and>
         c_size c = sum_list (map (getTotalSize ag) (c_assets c)) \<and>
         length (c_sourceBundles c) > minBundles \<and>
         distinct (c_sourceBundles c) \<and>
         (\<forall>b \<in> set (c_sourceBundles c).
            \<not> b_isEntry b \<and> b_isSplittable b \<and>
            (\<exists>a \<in> set (c_assets c). hasAsset bg b a \<and> isSourceBundle a b))"
proof -
  from assms(2) have big: "meetsThreshold c" and "c \<in> set (map snd (collectCandidates ag bg))"
    by (simp_all add: sortedCandidates_def set_jsSort)
  then obtain k where "(k, c) \<in> set (collectCandidates ag bg)" by auto
  with collectCandidates_candidateInv [OF assms(1), of ag] have inv: "candidateInv ag bg c"
    by fastforce
  have src: "\<not> b_isEntry b \<and> b_isSplittable b \<and>
      (\<exists>a \<in> set (c_assets c). hasAsset bg b a \<and> isSourceBundle a b)"
    if "b \<in> set (c_sourceBundles c)" for b
  proof -
    from inv that obtain a where a: "a \<in> set (c_assets c)" and "b \<in> set (containingBundles bg a)"
      by (auto simp: candidateInv_def list_all_iff list_ex_iff)
    then have "isSourceBundle a b" and "hasAsset bg b a"
      by (simp_all add: containingBundles_def findBundlesWithAsset_def)
    with a show ?thesis by (auto simp: isSourceBundle_def)
  qed
  from big inv src show ?thesis
    by (simp add: meetsThreshold_def candidateInv_def)
qed

theorem sharedBundle_lower_bounds_witness:
  "distinct (bg_bundles sharedGraph) \<and>
   sharedCandidate \<in> set (sortedCandidates (collectCandidates sharedAssets sharedGraph)) \<and>
   c_size sharedCandidate = 30010 \<and>
   c_size sharedCandidate \<ge> minBundleSize \<and>
   length (c_sourceBundles sharedCandidate) > minBundles \<and>
   (\<exists>a \<in> set (c_assets sharedCandidate). hasAsset sharedGraph sharedFirst a \<and> isSourceBundle a sharedFirst)"
proof -
  have d: "distinct (bg_bundles sharedGraph)"
    by code_simp
  have "sortedCandidates (collectCandidates sharedAssets sharedGraph) = [sharedCandidate]"
    by code_simp
  then have c: "sharedCandidate \<in> set (sortedCandidates (collectCandidates sharedAssets sharedGraph))"
    by simp
  have s: "c_size sharedCandidate = 30010" and f: "sharedFirst \<in> set (c_sourceBundles sharedCandidate)"
    by (simp_all add: sharedCandidate_def)
  from sharedBundle_lower_bounds [OF d c] d c s f show ?thesis by blast
qed

text \<open>
  C10, as amended. The callback of pass 4 calls \<^verbatim>\<open>skipChildren\<close> on an asset exactly when the
  asset has more than \<^verbatim>\<open>minBundles\<close> containing bundles after the filter, whatever the sizes
  and the candidates collected so far; the traversal then does not descend from that asset.
  So an asset is bucketed only if the traversal reaches it otherwise: it has more than
  \<^verbatim>\<open>minBundles\<close> filtered containing bundles itself, and it is resolved by a dependency of the
  root, or by a dependency of an asset that has at most \<^verbatim>\<open>minBundles\<close> of them.
\<close>

theorem bucketed_asset_reached_past_unskipped:
  "snd (collectVisit ag bg (AssetNode x) m) = (length (containingBundles bg x) > minBundles) \<and>
   (\<forall>kc \<in> set (collectCandidates ag bg). \<forall>a \<in> set (c_assets (snd kc)).
      length (containingBundles bg a) > minBundles \<and>
      (\<exists>d. a \<in> set (getDependencyAssets ag d) \<and>
         (d \<in> set (ag_entries ag) \<or>
          (\<exists>p. d \<in> set (getDependencies ag p) \<and>
             \<not> length (containingBundles bg p) > minBundles))))"
proof (intro conjI ballI)
  show "snd (collectVisit ag bg (AssetNode x) m) = (length (containingBundles bg x) > minBundles)"
    by (simp add: collectVisit_def)
next
  fix kc a
  assume "kc \<in> set (collectCandidates ag bg)" and "a \<in> set (c_assets (snd kc))"
  then obtain p d where
    sk: "skipsChildren bg (AssetNode a)" and
    child: "AssetNode a \<in> set (nodeChildren ag (DependencyNode d))" and
    parent: "d \<in> set (ag_entries ag) \<or>
       (DependencyNode d \<in> set (nodeChildren ag p) \<and> \<not> skipsChildren bg p)"
    using collectCandidates_reached by blast
  from sk show "length (containingBundles bg a) > minBundles"
    by (simp add: skipsChildren_def)
  from child have a: "a \<in> set (getDependencyAssets ag d)"
    by (auto simp: nodeChildren_def)
  from parent have "d \<in> set (ag_entries ag) \<or>
      (\<exists>q. d \<in> set (getDependencies ag q) \<and> \<not> length (containingBundles bg q) > minBundles)"
  proof
    assume "d \<in> set (ag_entries ag)"
    then show ?thesis by blast
  next
    assume *: "DependencyNode d \<in> set (nodeChildren ag p) \<and> \<not> skipsChildren bg p"
    then obtain q where "p = AssetNode q"
      by (cases p) (auto simp: nodeChildren_def)
    with * have "d \<in> set (getDependencies ag q)"
      and "\<not> length (containingBundles bg q) > minBundles"
      by (auto simp: nodeChildren_def skipsChildren_def)
    then show ?thesis by blast
  qed
  with a show "\<exists>d. a \<in> set (getDependencyAssets ag d) \<and>
      (d \<in> set (ag_entries ag) \<or>
       (\<exists>p. d \<in> set (getDependencies ag p) \<and> \<not> length (containingBundles bg p) > minBundles))"
    by blast
qed

theorem bucketed_asset_reached_past_unskipped_witness:
  "(''e1:e2'', sharedCandidate) \<in> set (collectCandidates sharedAssets sharedGraph) \<and>
   exAsset ''t'' 5 \<in> set (c_assets (snd (''e1:e2'', sharedCandidate))) \<and>
   length (containingBundles sharedGraph (exAsset ''t'' 5)) > minBundles \<and>
   (\<exists>d. exAsset ''t'' 5 \<in> set (getDependencyAssets sharedAssets d) \<and>
      (d \<in> set (ag_entries sharedAssets) \<or>
       (\<exists>p. d \<in> set (getDependencies sharedAssets p) \<and>
          \<not> length (containingBundles sharedGraph p) > minBundles)))"
proof -
  have "collectCandidates sharedAssets sharedGraph = [(''e1:e2'', sharedCandidate)]"
    by code_simp
  then have kc: "(''e1:e2'', sharedCandidate) \<in> set (collectCandidates sharedAssets sharedGraph)"
    by simp
  have a: "exAsset ''t'' 5 \<in> set (c_assets (snd (''e1:e2'', sharedCandidate)))"
    by (simp add: sharedCandidate_def)
  from bucketed_asset_reached_past_unskipped [of sharedAssets sharedGraph] kc a
  show ?thesis by blast
qed

text \<open>
  C10 as stated fails: \<open>s\<close> has two filtered containing bundles, so its children are skipped;
  its child \<open>t\<close> is reached through \<open>e1\<close> all the same and is bucketed, in the candidate of
  \<open>s\<close>.
\<close>

theorem descendant_bucketed_counterexample:
  "length (containingBundles sharedGraph (exAsset ''s'' 30000)) > minBundles \<and>
   snd (collectVisit sharedAssets sharedGraph (AssetNode (exAsset ''s'' 30000)) []) \<and>
   exDep ''s_t'' False False \<in> set (getDependencies sharedAssets (exAsset ''s'' 30000)) \<and>
   exAsset ''t'' 5 \<in> set (getDependencyAssets sharedAssets (exDep ''s_t'' False False)) \<and>
   map (\<lambda>kc. map a_id (c_assets (snd kc))) (collectCandidates sharedAssets sharedGraph)
     = [[''s'', ''t'']]"
  by code_simp

text \<open>
  The witness of C2: the shared example is within the limit, and so is the output of the
  optimizer, which holds the shared bundle.
\<close>

theorem passes_3_to_5_keep_limit_witness:
  "withinLimit sharedGraph \<and>
   withinLimit (pass3 sharedAssets sharedGraph) \<and>
   withinLimit (pass2 sharedAssets sharedGraph) \<and>
   (\<exists>out. optimize (\<lambda>s. s) sharedAssets sharedGraph = Inr out \<and>
      length (bg_bundles out) = 4 \<and> withinLimit out)"
proof -
  have w: "withinLimit sharedGraph"
    by code_simp
  have w2: "withinLimit (pass2 sharedAssets sharedGraph)"
    by code_simp
  have "case optimize (\<lambda>s. s) sharedAssets sharedGraph of
          Inl e \<Rightarrow> False | Inr out \<Rightarrow> length (bg_bundles out) = 4"
    by code_simp
  then obtain out where out: "optimize (\<lambda>s. s) sharedAssets sharedGraph = Inr out"
    and len: "length (bg_bundles out) = 4"
    by (cases "optimize (\<lambda>s. s) sharedAssets sharedGraph") auto
  from passes_3_to_5_keep_limit [of sharedGraph sharedAssets "\<lambda>s. s"] w w2 out len
  show ?thesis by blast
qed

text \<open>
  C5. When the visitor of pass 1 returns on a dependency, it has opened a bundle group if and
  only if the dependency is an entry or async and has a resolution, or its resolution is
  isolated or inline. The group then belongs to the dependency, is in the graph and is the
  group of the returned context; its target is the dependency's target, or else the target of
  the group inherited through the context; for every resolved asset the bundle recorded for
  it has the asset as its entry, the group's target, and \<^verbatim>\<open>isEntry\<close> false when the asset is
  isolated and that of the dependency otherwise; and a bundle of the group that was not in it
  before is such a bundle. Otherwise the bundle groups of the graph are those before.
\<close>

theorem enter_opens_bundle_group:
  assumes "enter splittable ag (DependencyNode d) ctx st = Inr (ctx', st')"
  shows
    "(((d_isEntry d \<or> d_isAsync d) \<and> getDependencyResolution ag d \<noteq> None \<or>
       (\<exists>r. getDependencyResolution ag d = Some r \<and> (a_isIsolated r \<or> a_isInline r))) \<longrightarrow>
      (\<exists>t. (d_target d = Some t \<or>
             (d_target d = None \<and>
              (\<exists>c g. ctx = Some c \<and> ctx_bundleGroup c = Some g \<and> g_target g = t))) \<and>
         ctx_bundleGroup ctx' = Some \<lparr>g_dependency = d, g_target = t\<rparr> \<and>
         \<lparr>g_dependency = d, g_target = t\<rparr> \<in> set (map fst (bg_groups (bs_graph st'))) \<and>
         (\<forall>a \<in> set (getDependencyAssets ag d).
            \<exists>b. map_of (bs_bundlesByEntryAsset st') a = Some b \<and>
                b_mainEntry b = Some a \<and> b_target b = t \<and>
                b_isEntry b = (if a_isIsolated a then False else d_isEntry d)) \<and>
         (\<forall>b \<in> set (getBundlesInBundleGroup (bs_graph st') \<lparr>g_dependency = d, g_target = t\<rparr>).
            b \<in> set (getBundlesInBundleGroup (bs_graph st) \<lparr>g_dependency = d, g_target = t\<rparr>) \<or>
            (\<exists>a \<in> set (getDependencyAssets ag d).
               b_mainEntry b = Some a \<and>
               b_isEntry b = (if a_isIsolated a then False else d_isEntry d))))) \<and>
     (\<not> ((d_isEntry d \<or> d_isAsync d) \<and> getDependencyResolution ag d \<noteq> None \<or>
         (\<exists>r. getDependencyResolution ag d = Some r \<and> (a_isIsolated r \<or> a_isInline r))) \<longrightarrow>
      map fst (bg_groups (bs_graph st')) = map fst (bg_groups (bs_graph st)))"
proof (intro conjI impI)
  assume "(d_isEntry d \<or> d_isAsync d) \<and> getDependencyResolution ag d \<noteq> None \<or>
       (\<exists>r. getDependencyResolution ag d = Some r \<and> (a_isIsolated r \<or> a_isInline r))"
  then have "opensBundleGroup d (getDependencyResolution ag d)"
    by (simp add: opensBundleGroup_iff)
  then obtain t where
    target: "groupTarget d ctx = Some t" and
    group: "ctx_bundleGroup ctx' = Some \<lparr>g_dependency = d, g_target = t\<rparr>" and
    loop: "forEach (createEntryBundle splittable d \<lparr>g_dependency = d, g_target = t\<rparr>
             (length (bs_maps st)))
           (getDependencyAssets ag d)
           (st\<lparr>bs_graph := snd (createBundleGroup d t (bs_graph st)),
               bs_maps := bs_maps st @ [[]]\<rparr>) = Inr st'"
    using assms by (rule enter_opens)
  let ?g = "\<lparr>g_dependency = d, g_target = t\<rparr>"
  let ?st = "st\<lparr>bs_graph := snd (createBundleGroup d t (bs_graph st)),
               bs_maps := bs_maps st @ [[]]\<rparr>"
  note result = forEach_createEntryBundle [OF loop, of ?g]
  have present: "?g \<in> set (map fst (bg_groups (bs_graph ?st)))"
    by (simp add: createBundleGroup_def Let_def)
  have before: "getBundlesInBundleGroup (bs_graph ?st) ?g = getBundlesInBundleGroup (bs_graph st) ?g"
  proof (cases "?g \<in> set (map fst (bg_groups (bs_graph st)))")
    case True
    then show ?thesis by (simp add: createBundleGroup_def Let_def)
  next
    case False
    then have "map_of (bg_groups (bs_graph st)) ?g = None"
      by (simp add: map_of_eq_None_iff)
    with False show ?thesis
      by (simp add: createBundleGroup_def Let_def getBundlesInBundleGroup_def map_add_def
          split: option.splits)
  qed
  have t: "d_target d = Some t \<or>
      (d_target d = None \<and> (\<exists>c g. ctx = Some c \<and> ctx_bundleGroup c = Some g \<and> g_target g = t))"
    using target by (simp add: groupTarget_iff)
  have inGraph: "?g \<in> set (map fst (bg_groups (bs_graph st')))"
    using result present by simp
  have recorded: "\<forall>a \<in> set (getDependencyAssets ag d).
      \<exists>b. map_of (bs_bundlesByEntryAsset st') a = Some b \<and>
          b_mainEntry b = Some a \<and> b_target b = t \<and>
          b_isEntry b = (if a_isIsolated a then False else d_isEntry d)"
    using result by (simp add: entryBundleOf_def)
  have members: "\<forall>b \<in> set (getBundlesInBundleGroup (bs_graph st') ?g).
      b \<in> set (getBundlesInBundleGroup (bs_graph st) ?g) \<or>
      (\<exists>a \<in> set (getDependencyAssets ag d).
         b_mainEntry b = Some a \<and>
         b_isEntry b = (if a_isIsolated a then False else d_isEntry d))"
  proof
    fix b
    assume "b \<in> set (getBundlesInBundleGroup (bs_graph st') ?g)"
    with result before consider "b \<in> set (getBundlesInBundleGroup (bs_graph st) ?g)"
      | a where "a \<in> set (getDependencyAssets ag d)" "b = entryBundleOf splittable d ?g a"
      by auto
    then show "b \<in> set (getBundlesInBundleGroup (bs_graph st) ?g) \<or>
      (\<exists>a \<in> set (getDependencyAssets ag d).
         b_mainEntry b = Some a \<and>
         b_isEntry b = (if a_isIsolated a then False else d_isEntry d))"
    proof cases
      case 1
      then show ?thesis by blast
    next
      case 2
      then show ?thesis by (auto simp: entryBundleOf_def)
    qed
  qed
  from t group inGraph recorded members
  show "\<exists>t. (d_target d = Some t \<or>
             (d_target d = None \<and>
              (\<exists>c g. ctx = Some c \<and> ctx_bundleGroup c = Some g \<and> g_target g = t))) \<and>
         ctx_bundleGroup ctx' = Some \<lparr>g_dependency = d, g_target = t\<rparr> \<and>
         \<lparr>g_dependency = d, g_target = t\<rparr> \<in> set (map fst (bg_groups (bs_graph st'))) \<and>
         (\<forall>a \<in> set (getDependencyAssets ag d).
            \<exists>b. map_of (bs_bundlesByEntryAsset st') a = Some b \<and>
                b_mainEntry b = Some a \<and> b_target b = t \<and>
                b_isEntry b = (if a_isIsolated a then False else d_isEntry d)) \<and>
         (\<forall>b \<in> set (getBundlesInBundleGroup (bs_graph st') \<lparr>g_dependency = d, g_target = t\<rparr>).
            b \<in> set (getBundlesInBundleGroup (bs_graph st) \<lparr>g_dependency = d, g_target = t\<rparr>) \<or>
            (\<exists>a \<in> set (getDependencyAssets ag d).
               b_mainEntry b = Some a \<and>
               b_isEntry b = (if a_isIsolated a then False else d_isEntry d)))"
    by blast
next
  assume "\<not> ((d_isEntry d \<or> d_isAsync d) \<and> getDependencyResolution ag d \<noteq> None \<or>
         (\<exists>r. getDependencyResolution ag d = Some r \<and> (a_isIsolated r \<or> a_isInline r)))"
  then have "\<not> opensBundleGroup d (getDependencyResolution ag d)"
    by (simp add: opensBundleGroup_iff)
  then show "map fst (bg_groups (bs_graph st')) = map fst (bg_groups (bs_graph st))"
    using assms by (rule enter_same_group)
qed

theorem enter_opens_bundle_group_witness:
  "(\<exists>ctx' st'.
      enter (\<lambda>_. True) pageAssets (DependencyNode (exDep ''m_v'' False True)) (Some exCtx)
        exBundlerState = Inr (ctx', st') \<and>
      ctx_bundleGroup ctx' = Some (exGroup (exDep ''m_v'' False True)) \<and>
      exGroup (exDep ''m_v'' False True) \<in> set (map fst (bg_groups (bs_graph st'))) \<and>
      (\<exists>b. map_of (bs_bundlesByEntryAsset st') (exAsset ''v'' 10) = Some b \<and>
           b_mainEntry b = Some (exAsset ''v'' 10) \<and> b_target b = ''dist'' \<and> \<not> b_isEntry b)) \<and>
   (\<exists>ctx' st'.
      enter (\<lambda>_. True) pageAssets (DependencyNode (exDep ''m_u'' False False)) (Some exCtx)
        exBundlerState = Inr (ctx', st') \<and>
      map fst (bg_groups (bs_graph st')) = map fst (bg_groups (bs_graph exBundlerState)))"
proof
  let ?d = "exDep ''m_v'' False True"
  have "case enter (\<lambda>_. True) pageAssets (DependencyNode ?d) (Some exCtx) exBundlerState of
          Inl e \<Rightarrow> False | Inr r \<Rightarrow> True"
    by code_simp
  then obtain ctx' st' where run:
    "enter (\<lambda>_. True) pageAssets (DependencyNode ?d) (Some exCtx) exBundlerState = Inr (ctx', st')"
    by (cases "enter (\<lambda>_. True) pageAssets (DependencyNode ?d) (Some exCtx) exBundlerState") auto
  have res: "getDependencyResolution pageAssets ?d = Some (exAsset ''v'' 10)"
    and assets: "getDependencyAssets pageAssets ?d = [exAsset ''v'' 10]"
    by code_simp+
  have flags: "d_isAsync ?d" "\<not> d_isEntry ?d" "d_target ?d = None"
    "\<not> a_isIsolated (exAsset ''v'' 10)"
    by (simp_all add: exDep_def exAsset_def)
  have inherited: "ctx_bundleGroup exCtx = Some (exGroup (exDep ''d0'' True False))"
    "g_target (exGroup (exDep ''d0'' True False)) = ''dist''"
    by (simp_all add: exCtx_def exGroup_def)
  from enter_opens_bundle_group [OF run] res flags(1)
  obtain t where t: "d_target ?d = Some t \<or>
        (d_target ?d = None \<and>
         (\<exists>c g. Some exCtx = Some c \<and> ctx_bundleGroup c = Some g \<and> g_target g = t))"
    and group: "ctx_bundleGroup ctx' = Some \<lparr>g_dependency = ?d, g_target = t\<rparr>"
    and inGraph: "\<lparr>g_dependency = ?d, g_target = t\<rparr> \<in> set (map fst (bg_groups (bs_graph st')))"
    and recorded: "\<forall>a \<in> set (getDependencyAssets pageAssets ?d).
        \<exists>b. map_of (bs_bundlesByEntryAsset st') a = Some b \<and>
            b_mainEntry b = Some a \<and> b_target b = t \<and>
            b_isEntry b = (if a_isIsolated a then False else d_isEntry ?d)"
    by auto
  from t flags(3) inherited have "t = ''dist''" by auto
  then have g: "\<lparr>g_dependency = ?d, g_target = t\<rparr> = exGroup ?d"
    by (simp add: exGroup_def)
  from recorded assets flags obtain b where
    "map_of (bs_bundlesByEntryAsset st') (exAsset ''v'' 10) = Some b"
    "b_mainEntry b = Some (exAsset ''v'' 10)" "b_target b = t" "\<not> b_isEntry b"
    by auto
  with run group inGraph g \<open>t = ''dist''\<close>
  show "\<exists>ctx' st'.
      enter (\<lambda>_. True) pageAssets (DependencyNode ?d) (Some exCtx) exBundlerState = Inr (ctx', st') \<and>
      ctx_bundleGroup ctx' = Some (exGroup ?d) \<and>
      exGroup ?d \<in> set (map fst (bg_groups (bs_graph st'))) \<and>
      (\<exists>b. map_of (bs_bundlesByEntryAsset st') (exAsset ''v'' 10) = Some b \<and>
           b_mainEntry b = Some (exAsset ''v'' 10) \<and> b_target b = ''dist'' \<and> \<not> b_isEntry b)"
    by auto
next
  let ?d = "exDep ''m_u'' False False"
  have "case enter (\<lambda>_. True) pageAssets (DependencyNode ?d) (Some exCtx) exBundlerState of
          Inl e \<Rightarrow> False | Inr r \<Rightarrow> True"
    by code_simp
  then obtain ctx' st' where run:
    "enter (\<lambda>_. True) pageAssets (DependencyNode ?d) (Some exCtx) exBundlerState = Inr (ctx', st')"
    by (cases "enter (\<lambda>_. True) pageAssets (DependencyNode ?d) (Some exCtx) exBundlerState") auto
  have res: "getDependencyResolution pageAssets ?d = Some (exAsset ''u'' 10)"
    by code_simp
  have flags: "\<not> d_isAsync ?d" "\<not> d_isEntry ?d"
    "\<not> a_isIsolated (exAsset ''u'' 10)" "\<not> a_isInline (exAsset ''u'' 10)"
    by (simp_all add: exDep_def exAsset_def)
  from enter_opens_bundle_group [OF run] res flags
  have "map fst (bg_groups (bs_graph st')) = map fst (bg_groups (bs_graph exBundlerState))"
    by auto
  with run show "\<exists>ctx' st'.
      enter (\<lambda>_. True) pageAssets (DependencyNode ?d) (Some exCtx) exBundlerState = Inr (ctx', st') \<and>
      map fst (bg_groups (bs_graph st')) = map fst (bg_groups (bs_graph exBundlerState))"
    by blast
qed






text \<open>
  C9. Running passes 2 to 5 on a bundle graph in which they find nothing to do returns the
  same bundle graph: no candidate of pass 2 has room in all its bundle groups, no asset of a
  splittable bundle outside isolation is also in an ancestor bundle, every candidate of pass 4
  that meets the size threshold touches a full bundle group, and every async dependency with
  a resolution has its bundle group with a parent bundle and is internalized wherever its
  resolution is available. The output of a first run need not be such a graph.
\<close>

theorem optimize_settled_unchanged:
  assumes "settled ag bg"
  shows "optimize md5FromString ag bg = Inr bg"
proof -
  from assms have two: "pass2 ag bg = bg"
    by (intro pass2_idle) (simp add: settled_def)
  from assms have three: "pass3 ag bg = bg"
    by (intro pass3_idle) (simp add: settled_def)
  from assms have four: "pass4 md5FromString ag bg = Inr bg"
    by (intro pass4_idle) (simp add: settled_def)
  from assms have five: "pass5 ag bg = Inr bg"
    by (intro pass5_idle) (simp add: settled_def)
  show ?thesis
    by (simp add: optimize_def two three four five)
qed

theorem optimize_settled_unchanged_witness:
  "\<exists>out. optimize (\<lambda>s. s) sharedAssets sharedGraph = Inr out \<and> out \<noteq> sharedGraph \<and>
     settled sharedAssets out \<and> optimize (\<lambda>s. s) sharedAssets out = Inr out"
proof -
  have "case optimize (\<lambda>s. s) sharedAssets sharedGraph of
          Inl e \<Rightarrow> False
        | Inr out \<Rightarrow> out \<noteq> sharedGraph \<and> settled sharedAssets out"
    by code_simp
  then obtain out where first: "optimize (\<lambda>s. s) sharedAssets sharedGraph = Inr out"
    and changed: "out \<noteq> sharedGraph" and quiet: "settled sharedAssets out"
    by (cases "optimize (\<lambda>s. s) sharedAssets sharedGraph") auto
  from quiet have "optimize (\<lambda>s. s) sharedAssets out = Inr out"
    by (rule optimize_settled_unchanged)
  with first changed quiet show ?thesis by blast
qed

text \<open>
  In the first graph the first run internalizes the dynamic import of \<open>b\<close> and removes its bundle
  group; the second run finds no bundle group for that dependency and fails. In the second
  graph the first run moves \<open>s\<close> with \<open>t\<close> and \<open>s2\<close> with \<open>t\<close> into two shared bundles; the second
  run finds \<open>t\<close> in both and moves it into a third.
\<close>

theorem optimize_not_idempotent_counterexample:
  "(case optimize (\<lambda>s. s) internAssets internGraph of
      Inl e \<Rightarrow> False
    | Inr out \<Rightarrow> optimize (\<lambda>s. s) internAssets out = Inl InvariantViolation) \<and>
   (case optimize (\<lambda>s. s) nestedAssets nestedGraph of
      Inl e \<Rightarrow> False
    | Inr out \<Rightarrow>
        map b_id (bg_bundles out) = [''m'', ''e1'', ''e2'', ''e3'', ''e4'', ''e1:e2'', ''e3:e4''] \<and>
        (case optimize (\<lambda>s. s) nestedAssets out of
           Inl e \<Rightarrow> False
         | Inr again \<Rightarrow>
             again \<noteq> out \<and>
             map b_id (bg_bundles again) =
               [''m'', ''e1'', ''e2'', ''e3'', ''e4'', ''e1:e2'', ''e3:e4'', ''e1:e2:e3:e4'']))"
  by code_simp

end
